theory Spec2Isabelle
  imports Complex_Main
begin

section \<open>The binomial pricer of \<open>binomial.c\<close>\<close>

text \<open>
  The program prices a European call option on a recombining binomial lattice.
  It is embedded twice, statement for statement.

  In the first embedding a C \<open>double\<close> is a \<open>real\<close>: rounding, overflow and the finite
  range of the format are left out. The two places where the C arithmetic leaves the real
  numbers are kept as error results: \<open>sqrt\<close> of a negative number (a NaN in C) and a
  division by zero (an infinity or a NaN in C). In \<open>OptionPrice\<close> each of them makes the
  returned \<open>double\<close> a NaN, so the model returns the error in place of a price. This
  embedding carries the properties that are identities between formulas, or that are
  about indices and the order of the loops: they do not depend on how an operation rounds.

  In the second embedding (\<open>OptionPrice_fp\<close> and the names ending in \<open>_fp\<close>) a
  \<open>double\<close> is an IEEE 754 value: finite, \<open>+inf\<close>, \<open>-inf\<close> or NaN, every arithmetic
  operation rounds its exact result, overflows to an infinity and follows the standard's
  rules for the special values. It carries the properties of order and sign, which rounding,
  overflow and NaN decide.

  The loop counters \<open>idx\<close> and \<open>jdx\<close> are C \<open>int\<close>s that stay within \<open>0..n\<close> with
  \<open>n = 1000\<close>; they are modelled as \<open>nat\<close>. The number of steps \<open>n\<close> is the constant
  1000 in the source; the loops and the constants take it as an argument, and
  \<open>OptionPrice\<close> passes 1000.

  Both calls of \<open>malloc\<close> are taken to succeed (the source does not test their
  result). The two calls of \<open>free\<close> at the end do not change the returned price and
  are left out.
\<close>

section \<open>The program over the reals\<close>

subsection \<open>Data\<close>

text \<open>The \<open>struct option\<close> of the source.\<close>

record option_t =
  asset :: real
  strike :: real
  expiry :: real
  rate :: real
  volatility :: real

datatype error = SqrtDomain | DivByZero | OutOfBounds | UninitRead

text \<open>
  A block returned by \<open>malloc\<close>: one cell per \<open>double\<close>. A cell that has never been
  written holds \<open>None\<close>; reading it is an error, as is any access outside the block.
\<close>

type_synonym buffer = "real option list"

definition malloc_doubles :: "nat \<Rightarrow> buffer" where
  "malloc_doubles k = replicate k None"

definition rd :: "buffer \<Rightarrow> nat \<Rightarrow> error + real" where
  "rd b i = (if i < length b
             then (case b ! i of None \<Rightarrow> Inl UninitRead | Some x \<Rightarrow> Inr x)
             else Inl OutOfBounds)"

definition wr :: "buffer \<Rightarrow> nat \<Rightarrow> real \<Rightarrow> error + buffer" where
  "wr b i x = (if i < length b then Inr (b[i := Some x]) else Inl OutOfBounds)"

definition c_sqrt :: "real \<Rightarrow> error + real" where
  "c_sqrt x = (if x < 0 then Inl SqrtDomain else Inr (sqrt x))"

definition c_div :: "real \<Rightarrow> real \<Rightarrow> error + real" where
  "c_div x y = (if y = 0 then Inl DivByZero else Inr (x / y))"

subsection \<open>Payoff\<close>

definition Payoff :: "real \<Rightarrow> real \<Rightarrow> real" where
  "Payoff price strike' = (if price > strike' then price - strike' else 0)"

subsection \<open>The lattice constants\<close>

text \<open>
  The locals \<open>step\<close>, \<open>discount\<close>, \<open>ufactor\<close>, \<open>u\<close>, \<open>v\<close> and \<open>p\<close> of \<open>OptionPrice\<close>,
  for \<open>n\<close> time steps, in the order the source computes them. \<open>discount\<close>, \<open>u\<close>, \<open>v\<close>
  and \<open>p\<close>, which the loops use, are collected in the record \<open>lattice\<close>.
\<close>

definition step_of :: "nat \<Rightarrow> option_t \<Rightarrow> error + real" where
  "step_of n opt = c_div (expiry opt) (real n)"

definition discount_of :: "option_t \<Rightarrow> real \<Rightarrow> real" where
  "discount_of opt step = exp (- rate opt * step)"

definition ufactor_of :: "option_t \<Rightarrow> real \<Rightarrow> real" where
  "ufactor_of opt step =
     0.5 * (discount_of opt step + exp ((rate opt + volatility opt * volatility opt) * step))"

record lattice =
  lat_discount :: real
  lat_u :: real
  lat_v :: real
  lat_p :: real

definition lattice_of :: "nat \<Rightarrow> option_t \<Rightarrow> error + lattice" where
  "lattice_of n opt =
     (case step_of n opt of Inl e \<Rightarrow> Inl e | Inr step \<Rightarrow>
      (let discount' = discount_of opt step;
           ufactor = ufactor_of opt step
       in (case c_sqrt (ufactor * ufactor - 1) of Inl e \<Rightarrow> Inl e | Inr sq \<Rightarrow>
      (let u' = ufactor + sq
       in (case c_div 1.0 u' of Inl e \<Rightarrow> Inl e | Inr v' \<Rightarrow>
      (case c_div (exp (rate opt * step) - v') (u' - v') of Inl e \<Rightarrow> Inl e | Inr p' \<Rightarrow>
      Inr \<lparr>lat_discount = discount', lat_u = u', lat_v = v', lat_p = p'\<rparr>))))))"

subsection \<open>The loops\<close>

text \<open>\<open>for(jdx = idx; jdx >= 1; jdx--) assetPrices[jdx] = u * assetPrices[jdx - 1];\<close>\<close>

fun build_inner :: "real \<Rightarrow> buffer \<Rightarrow> nat \<Rightarrow> error + buffer" where
  "build_inner u' a 0 = Inr a"
| "build_inner u' a (Suc j) =
     (case rd a j of Inl e \<Rightarrow> Inl e | Inr x \<Rightarrow>
      (case wr a (Suc j) (u' * x) of Inl e \<Rightarrow> Inl e | Inr a' \<Rightarrow>
      build_inner u' a' j))"

text \<open>
  \<open>for(idx = 1; idx <= n; idx++)\<close>: the inner loop, then
  \<open>assetPrices[0] = v * assetPrices[0]\<close>.
\<close>

function build_outer :: "real \<Rightarrow> real \<Rightarrow> nat \<Rightarrow> buffer \<Rightarrow> nat \<Rightarrow> error + buffer" where
  "build_outer u' v' n a idx =
     (if idx \<le> n then
        (case build_inner u' a idx of Inl e \<Rightarrow> Inl e | Inr a1 \<Rightarrow>
        (case rd a1 0 of Inl e \<Rightarrow> Inl e | Inr x \<Rightarrow>
        (case wr a1 0 (v' * x) of Inl e \<Rightarrow> Inl e | Inr a2 \<Rightarrow>
        build_outer u' v' n a2 (Suc idx))))
      else Inr a)"
  by pat_completeness auto
termination
  by (relation "measure (\<lambda>(u', v', n, a, idx). Suc n - idx)") auto

text \<open>
  \<open>for(jdx = 0; jdx <= n; jdx++) optionPrices[jdx] = Payoff(assetPrices[jdx], opt.strike);\<close>
\<close>

function payoffs :: "real \<Rightarrow> nat \<Rightarrow> buffer \<Rightarrow> buffer \<Rightarrow> nat \<Rightarrow> error + buffer" where
  "payoffs k n a b jdx =
     (if jdx \<le> n then
        (case rd a jdx of Inl e \<Rightarrow> Inl e | Inr x \<Rightarrow>
        (case wr b jdx (Payoff x k) of Inl e \<Rightarrow> Inl e | Inr b' \<Rightarrow>
        payoffs k n a b' (Suc jdx)))
      else Inr b)"
  by pat_completeness auto
termination
  by (relation "measure (\<lambda>(k, n, a, b, jdx). Suc n - jdx)") auto

text \<open>
  \<open>for(jdx = 0; jdx < n; jdx++)
     optionPrices[jdx] = discount * (p * optionPrices[jdx + 1] + (1 - p) * optionPrices[jdx]);\<close>
\<close>

function back_inner :: "real \<Rightarrow> real \<Rightarrow> nat \<Rightarrow> buffer \<Rightarrow> nat \<Rightarrow> error + buffer" where
  "back_inner d q n b jdx =
     (if jdx < n then
        (case rd b (jdx + 1) of Inl e \<Rightarrow> Inl e | Inr x1 \<Rightarrow>
        (case rd b jdx of Inl e \<Rightarrow> Inl e | Inr x0 \<Rightarrow>
        (case wr b jdx (d * (q * x1 + (1 - q) * x0)) of Inl e \<Rightarrow> Inl e | Inr b' \<Rightarrow>
        back_inner d q n b' (Suc jdx))))
      else Inr b)"
  by pat_completeness auto
termination
  by (relation "measure (\<lambda>(d, q, n, b, jdx). n - jdx)") auto

text \<open>\<open>for(idx = n; idx >= 1; idx--)\<close>: the inner loop, whose bound is \<open>n\<close> on every pass.\<close>

fun back_outer :: "real \<Rightarrow> real \<Rightarrow> nat \<Rightarrow> buffer \<Rightarrow> nat \<Rightarrow> error + buffer" where
  "back_outer d q n b 0 = Inr b"
| "back_outer d q n b (Suc idx) =
     (case back_inner d q n b 0 of Inl e \<Rightarrow> Inl e | Inr b' \<Rightarrow> back_outer d q n b' idx)"

subsection \<open>OptionPrice\<close>

text \<open>
  The body of \<open>OptionPrice\<close> after the two calls of \<open>malloc\<close>, on the blocks
  \<open>assetPrices\<close> and \<open>optionPrices\<close> they returned.
\<close>

definition OptionPrice_on :: "nat \<Rightarrow> buffer \<Rightarrow> buffer \<Rightarrow> option_t \<Rightarrow> error + real" where
  "OptionPrice_on n assetPrices optionPrices opt =
     (case lattice_of n opt of Inl e \<Rightarrow> Inl e | Inr l \<Rightarrow>
      (case wr assetPrices 0 (asset opt) of Inl e \<Rightarrow> Inl e | Inr a0 \<Rightarrow>
      (case build_outer (lat_u l) (lat_v l) n a0 1 of Inl e \<Rightarrow> Inl e | Inr a \<Rightarrow>
      (case payoffs (strike opt) n a optionPrices 0 of Inl e \<Rightarrow> Inl e | Inr b0 \<Rightarrow>
      (case back_outer (lat_discount l) (lat_p l) n b0 n of Inl e \<Rightarrow> Inl e | Inr b \<Rightarrow>
      rd b 0)))))"

definition OptionPrice_n :: "nat \<Rightarrow> option_t \<Rightarrow> error + real" where
  "OptionPrice_n n opt = OptionPrice_on n (malloc_doubles (n + 1)) (malloc_doubles (n + 1)) opt"

text \<open>\<open>const int n = 1000;\<close>\<close>

definition OptionPrice :: "option_t \<Rightarrow> error + real" where
  "OptionPrice opt = OptionPrice_n 1000 opt"

subsection \<open>The algorithm in the words of the specification\<close>

text \<open>
  The specification's backward induction, on a list of reals: for \<open>step\<close> from \<open>n\<close> down
  to 1, for each node \<open>j\<close> from 0 to \<open>step - 1\<close>, set
  \<open>value[j] = discount * (p * value[j+1] + (1-p) * value[j])\<close>. It is compared with
  the loops of the source, whose inner bound is \<open>n\<close> on every pass. On a list of
  \<open>n + 1\<close> values every index it uses is at most \<open>step \<le> n\<close>.
\<close>

function spec_nodes :: "real \<Rightarrow> real \<Rightarrow> nat \<Rightarrow> real list \<Rightarrow> nat \<Rightarrow> real list" where
  "spec_nodes d q step vals j =
     (if j < step
      then spec_nodes d q step (vals[j := d * (q * vals ! (j + 1) + (1 - q) * vals ! j)]) (Suc j)
      else vals)"
  by pat_completeness auto
termination
  by (relation "measure (\<lambda>(d, q, step, vals, j). step - j)") auto

fun spec_backward :: "real \<Rightarrow> real \<Rightarrow> real list \<Rightarrow> nat \<Rightarrow> real list" where
  "spec_backward d q vals 0 = vals"
| "spec_backward d q vals (Suc step) = spec_backward d q (spec_nodes d q (Suc step) vals 0) step"

text \<open>
  The specification's terminal payoffs: index \<open>j\<close> of \<open>n + 1\<close> holds
  \<open>max(asset * u^j * v^(n-j) - strike, 0)\<close>.
\<close>

definition spec_payoffs :: "nat \<Rightarrow> option_t \<Rightarrow> lattice \<Rightarrow> real list" where
  "spec_payoffs n opt l =
     map (\<lambda>j. max (asset opt * lat_u l ^ j * lat_v l ^ (n - j) - strike opt) 0) [0..<n + 1]"

text \<open>
  The specification's lattice constants, steps 1 to 6 of its algorithm:
  \<open>dt = expiry / n\<close>, \<open>discount = exp(-rate*dt)\<close>,
  \<open>ufactor = 0.5 * (discount + exp((rate + volatility\<^sup>2) * dt))\<close>,
  \<open>u = ufactor + sqrt(ufactor\<^sup>2 - 1)\<close>, \<open>v = 1/u\<close> and
  \<open>p = (exp(rate*dt) - v) / (u - v)\<close>.
\<close>

definition spec_dt :: "nat \<Rightarrow> option_t \<Rightarrow> real" where
  "spec_dt n opt = expiry opt / real n"

definition spec_discount :: "nat \<Rightarrow> option_t \<Rightarrow> real" where
  "spec_discount n opt = exp (- rate opt * spec_dt n opt)"

definition spec_ufactor :: "nat \<Rightarrow> option_t \<Rightarrow> real" where
  "spec_ufactor n opt =
     0.5 * (spec_discount n opt + exp ((rate opt + (volatility opt)\<^sup>2) * spec_dt n opt))"

definition spec_u :: "nat \<Rightarrow> option_t \<Rightarrow> real" where
  "spec_u n opt = spec_ufactor n opt + sqrt ((spec_ufactor n opt)\<^sup>2 - 1)"

definition spec_v :: "nat \<Rightarrow> option_t \<Rightarrow> real" where
  "spec_v n opt = 1 / spec_u n opt"

definition spec_p :: "nat \<Rightarrow> option_t \<Rightarrow> real" where
  "spec_p n opt = (exp (rate opt * spec_dt n opt) - spec_v n opt) / (spec_u n opt - spec_v n opt)"

subsection \<open>Closed forms\<close>

text \<open>
  What the loops compute, as functions of the node index. \<open>node_price s u v k j\<close> is the
  asset price at node \<open>j\<close> of column \<open>k\<close>; \<open>sweep d q m g\<close> is one pass of the backward
  loop with inner bound \<open>m\<close> over the values \<open>g\<close>; \<open>value_at d q g k i\<close> is the value of
  node \<open>i\<close> after \<open>k\<close> steps of discounted expectation.
\<close>

definition node_price :: "real \<Rightarrow> real \<Rightarrow> real \<Rightarrow> nat \<Rightarrow> nat \<Rightarrow> real" where
  "node_price s u' v' k j = s * u' ^ j * v' ^ (k - j)"

definition sweep :: "real \<Rightarrow> real \<Rightarrow> nat \<Rightarrow> (nat \<Rightarrow> real) \<Rightarrow> nat \<Rightarrow> real" where
  "sweep d q m g i = (if i < m then d * (q * g (i + 1) + (1 - q) * g i) else g i)"

fun value_at :: "real \<Rightarrow> real \<Rightarrow> (nat \<Rightarrow> real) \<Rightarrow> nat \<Rightarrow> nat \<Rightarrow> real" where
  "value_at d q g 0 i = g i"
| "value_at d q g (Suc k) i =
     d * (q * value_at d q g k (i + 1) + (1 - q) * value_at d q g k i)"

definition terminal_payoff :: "nat \<Rightarrow> option_t \<Rightarrow> lattice \<Rightarrow> nat \<Rightarrow> real" where
  "terminal_payoff n opt l j =
     Payoff (node_price (asset opt) (lat_u l) (lat_v l) n j) (strike opt)"

definition lattice_price :: "nat \<Rightarrow> option_t \<Rightarrow> lattice \<Rightarrow> real" where
  "lattice_price n opt l =
     value_at (lat_discount l) (lat_p l) (terminal_payoff n opt l) n 0"

section \<open>The program over IEEE doubles\<close>

subsection \<open>Doubles and their arithmetic\<close>

text \<open>
  A \<open>double\<close>: a finite value, one of the two infinities, or NaN. The two zeros of the
  format are one value here. The sign of a zero matters only to a division by it, and
  the divisors of this program are \<open>n\<close> (1000), \<open>u\<close> (a sum of values that are not
  negative) and \<open>u - v\<close> (zero only as \<open>x - x\<close>, which is \<open>+0\<close>): a zero divisor is \<open>+0\<close>.
\<close>

datatype dbl = Fin real | PInf | NInf | NaN

text \<open>
  What the machine and the C library supply: \<open>fp_rnd\<close> takes the exact result of an
  operation on finite operands to the double that is stored (a finite double, or an
  infinity on overflow), and \<open>fp_exp\<close> is the library's \<open>exp\<close> on a finite argument.
  The program run on IEEE binary64 hardware is the instance where \<open>fp_rnd\<close> rounds to
  the nearest double, ties to even; each operation is taken to round once (no fused
  multiply-add, no wider intermediate format).
\<close>

record fpu =
  fp_rnd :: "real \<Rightarrow> dbl"
  fp_exp :: "real \<Rightarrow> dbl"

fun dsgn :: "dbl \<Rightarrow> real" where
  "dsgn (Fin x) = sgn x"
| "dsgn PInf = 1"
| "dsgn NInf = - 1"
| "dsgn NaN = 0"

definition signed_inf :: "real \<Rightarrow> dbl" where
  "signed_inf s = (if s = 0 then NaN else if 0 < s then PInf else NInf)"

fun dneg :: "dbl \<Rightarrow> dbl" where
  "dneg (Fin x) = Fin (- x)"
| "dneg PInf = NInf"
| "dneg NInf = PInf"
| "dneg NaN = NaN"

text \<open>
  \<open>a * b\<close>: NaN if an operand is NaN; the rounded product of two finite operands;
  otherwise an infinity with the product of the signs, and NaN for \<open>0 * inf\<close>.
\<close>

fun dmul :: "(real \<Rightarrow> dbl) \<Rightarrow> dbl \<Rightarrow> dbl \<Rightarrow> dbl" where
  "dmul r NaN b = NaN"
| "dmul r a NaN = NaN"
| "dmul r (Fin x) (Fin y) = r (x * y)"
| "dmul r a b = signed_inf (dsgn a * dsgn b)"

text \<open>\<open>a + b\<close>: NaN for \<open>inf + (-inf)\<close>; an infinite operand wins over a finite one.\<close>

fun dadd :: "(real \<Rightarrow> dbl) \<Rightarrow> dbl \<Rightarrow> dbl \<Rightarrow> dbl" where
  "dadd r NaN b = NaN"
| "dadd r a NaN = NaN"
| "dadd r (Fin x) (Fin y) = r (x + y)"
| "dadd r PInf NInf = NaN"
| "dadd r NInf PInf = NaN"
| "dadd r (Fin x) b = b"
| "dadd r a b = a"

definition dsub :: "(real \<Rightarrow> dbl) \<Rightarrow> dbl \<Rightarrow> dbl \<Rightarrow> dbl" where
  "dsub r a b = dadd r a (dneg b)"

text \<open>
  \<open>a / b\<close>: \<open>0 / 0\<close> and \<open>inf / inf\<close> are NaN; a finite \<open>x \<noteq> 0\<close> over zero is the infinity
  of the sign of \<open>x\<close>; a finite value over an infinity is zero.
\<close>

fun ddiv :: "(real \<Rightarrow> dbl) \<Rightarrow> dbl \<Rightarrow> dbl \<Rightarrow> dbl" where
  "ddiv r NaN b = NaN"
| "ddiv r a NaN = NaN"
| "ddiv r (Fin x) (Fin y) = (if y = 0 then signed_inf x else r (x / y))"
| "ddiv r (Fin x) b = Fin 0"
| "ddiv r a (Fin y) = (if y < 0 then dneg a else a)"
| "ddiv r a b = NaN"

text \<open>\<open>a <= b\<close> and \<open>a > b\<close>: every comparison with a NaN is false.\<close>

fun dle :: "dbl \<Rightarrow> dbl \<Rightarrow> bool" where
  "dle NaN b = False"
| "dle a NaN = False"
| "dle NInf b = True"
| "dle a PInf = True"
| "dle (Fin x) (Fin y) = (x \<le> y)"
| "dle a b = False"

definition dgt :: "dbl \<Rightarrow> dbl \<Rightarrow> bool" where
  "dgt a b = (dle b a \<and> \<not> dle a b)"

text \<open>\<open>sqrt\<close> (correctly rounded, NaN on a negative argument) and \<open>exp\<close>.\<close>

fun dsqrt :: "(real \<Rightarrow> dbl) \<Rightarrow> dbl \<Rightarrow> dbl" where
  "dsqrt r (Fin x) = (if x < 0 then NaN else r (sqrt x))"
| "dsqrt r PInf = PInf"
| "dsqrt r NInf = NaN"
| "dsqrt r NaN = NaN"

fun dexp :: "(real \<Rightarrow> dbl) \<Rightarrow> dbl \<Rightarrow> dbl" where
  "dexp e (Fin x) = e x"
| "dexp e PInf = PInf"
| "dexp e NInf = Fin 0"
| "dexp e NaN = NaN"

subsection \<open>Payoff, the lattice constants and the loops over doubles\<close>

type_synonym fbuffer = "dbl option list"

definition malloc_fp :: "nat \<Rightarrow> fbuffer" where
  "malloc_fp k = replicate k None"

definition rd_fp :: "fbuffer \<Rightarrow> nat \<Rightarrow> error + dbl" where
  "rd_fp b i = (if i < length b
                then (case b ! i of None \<Rightarrow> Inl UninitRead | Some x \<Rightarrow> Inr x)
                else Inl OutOfBounds)"

definition wr_fp :: "fbuffer \<Rightarrow> nat \<Rightarrow> dbl \<Rightarrow> error + fbuffer" where
  "wr_fp b i x = (if i < length b then Inr (b[i := Some x]) else Inl OutOfBounds)"

text \<open>
  \<open>if(price > strike) return price - strike; else return 0;\<close> The comparison is false
  when \<open>price\<close> is NaN, so a NaN asset price has payoff 0.
\<close>

definition Payoff_fp :: "(real \<Rightarrow> dbl) \<Rightarrow> dbl \<Rightarrow> dbl \<Rightarrow> dbl" where
  "Payoff_fp r price strike' = (if dgt price strike' then dsub r price strike' else Fin 0)"

text \<open>
  \<open>step = opt.expiry / n\<close>, \<open>discount = exp(-opt.rate * step)\<close> and
  \<open>ufactor = 0.5 * (discount + exp((opt.rate + opt.volatility * opt.volatility) * step))\<close>.
  The parameters are doubles read by \<open>scanf\<close>; \<open>n\<close>, \<open>0.5\<close> and \<open>1\<close> convert exactly.
\<close>

definition step_fp :: "fpu \<Rightarrow> nat \<Rightarrow> option_t \<Rightarrow> dbl" where
  "step_fp F n opt = ddiv (fp_rnd F) (Fin (expiry opt)) (Fin (real n))"

definition discount_fp :: "fpu \<Rightarrow> option_t \<Rightarrow> dbl \<Rightarrow> dbl" where
  "discount_fp F opt step = dexp (fp_exp F) (dmul (fp_rnd F) (dneg (Fin (rate opt))) step)"

definition ufactor_fp :: "fpu \<Rightarrow> option_t \<Rightarrow> dbl \<Rightarrow> dbl" where
  "ufactor_fp F opt step =
     dmul (fp_rnd F) (Fin 0.5)
       (dadd (fp_rnd F) (discount_fp F opt step)
          (dexp (fp_exp F)
             (dmul (fp_rnd F)
                (dadd (fp_rnd F) (Fin (rate opt))
                   (dmul (fp_rnd F) (Fin (volatility opt)) (Fin (volatility opt))))
                step)))"

record flattice =
  fl_discount :: dbl
  fl_u :: dbl
  fl_v :: dbl
  fl_p :: dbl

text \<open>
  \<open>u = ufactor + sqrt(ufactor * ufactor - 1)\<close>, \<open>v = 1.0 / u\<close> and
  \<open>p = (exp(opt.rate * step) - v) / (u - v)\<close>.
\<close>

definition lattice_fp :: "fpu \<Rightarrow> nat \<Rightarrow> option_t \<Rightarrow> flattice" where
  "lattice_fp F n opt =
     (let step = step_fp F n opt;
          discount' = discount_fp F opt step;
          ufactor = ufactor_fp F opt step;
          u' = dadd (fp_rnd F) ufactor
                 (dsqrt (fp_rnd F) (dsub (fp_rnd F) (dmul (fp_rnd F) ufactor ufactor) (Fin 1)));
          v' = ddiv (fp_rnd F) (Fin 1.0) u';
          p' = ddiv (fp_rnd F)
                 (dsub (fp_rnd F) (dexp (fp_exp F) (dmul (fp_rnd F) (Fin (rate opt)) step)) v')
                 (dsub (fp_rnd F) u' v')
      in \<lparr>fl_discount = discount', fl_u = u', fl_v = v', fl_p = p'\<rparr>)"

text \<open>The five loops, as in the first embedding, on cells that hold doubles.\<close>

fun build_inner_fp :: "(real \<Rightarrow> dbl) \<Rightarrow> dbl \<Rightarrow> fbuffer \<Rightarrow> nat \<Rightarrow> error + fbuffer" where
  "build_inner_fp r u' a 0 = Inr a"
| "build_inner_fp r u' a (Suc j) =
     (case rd_fp a j of Inl e \<Rightarrow> Inl e | Inr x \<Rightarrow>
      (case wr_fp a (Suc j) (dmul r u' x) of Inl e \<Rightarrow> Inl e | Inr a' \<Rightarrow>
      build_inner_fp r u' a' j))"

function build_outer_fp ::
  "(real \<Rightarrow> dbl) \<Rightarrow> dbl \<Rightarrow> dbl \<Rightarrow> nat \<Rightarrow> fbuffer \<Rightarrow> nat \<Rightarrow> error + fbuffer" where
  "build_outer_fp r u' v' n a idx =
     (if idx \<le> n then
        (case build_inner_fp r u' a idx of Inl e \<Rightarrow> Inl e | Inr a1 \<Rightarrow>
        (case rd_fp a1 0 of Inl e \<Rightarrow> Inl e | Inr x \<Rightarrow>
        (case wr_fp a1 0 (dmul r v' x) of Inl e \<Rightarrow> Inl e | Inr a2 \<Rightarrow>
        build_outer_fp r u' v' n a2 (Suc idx))))
      else Inr a)"
  by pat_completeness auto
termination
  by (relation "measure (\<lambda>(r, u', v', n, a, idx). Suc n - idx)") auto

function payoffs_fp ::
  "(real \<Rightarrow> dbl) \<Rightarrow> dbl \<Rightarrow> nat \<Rightarrow> fbuffer \<Rightarrow> fbuffer \<Rightarrow> nat \<Rightarrow> error + fbuffer" where
  "payoffs_fp r k n a b jdx =
     (if jdx \<le> n then
        (case rd_fp a jdx of Inl e \<Rightarrow> Inl e | Inr x \<Rightarrow>
        (case wr_fp b jdx (Payoff_fp r x k) of Inl e \<Rightarrow> Inl e | Inr b' \<Rightarrow>
        payoffs_fp r k n a b' (Suc jdx)))
      else Inr b)"
  by pat_completeness auto
termination
  by (relation "measure (\<lambda>(r, k, n, a, b, jdx). Suc n - jdx)") auto

text \<open>
  \<open>optionPrices[jdx] = discount * (p * optionPrices[jdx + 1] + (1 - p) * optionPrices[jdx])\<close>:
  two products, the difference \<open>1 - p\<close>, a sum and a product, each rounded.
\<close>

function back_inner_fp ::
  "(real \<Rightarrow> dbl) \<Rightarrow> dbl \<Rightarrow> dbl \<Rightarrow> nat \<Rightarrow> fbuffer \<Rightarrow> nat \<Rightarrow> error + fbuffer" where
  "back_inner_fp r d q n b jdx =
     (if jdx < n then
        (case rd_fp b (jdx + 1) of Inl e \<Rightarrow> Inl e | Inr x1 \<Rightarrow>
        (case rd_fp b jdx of Inl e \<Rightarrow> Inl e | Inr x0 \<Rightarrow>
        (case wr_fp b jdx
                (dmul r d (dadd r (dmul r q x1) (dmul r (dsub r (Fin 1) q) x0))) of
           Inl e \<Rightarrow> Inl e | Inr b' \<Rightarrow>
        back_inner_fp r d q n b' (Suc jdx))))
      else Inr b)"
  by pat_completeness auto
termination
  by (relation "measure (\<lambda>(r, d, q, n, b, jdx). n - jdx)") auto

fun back_outer_fp ::
  "(real \<Rightarrow> dbl) \<Rightarrow> dbl \<Rightarrow> dbl \<Rightarrow> nat \<Rightarrow> fbuffer \<Rightarrow> nat \<Rightarrow> error + fbuffer" where
  "back_outer_fp r d q n b 0 = Inr b"
| "back_outer_fp r d q n b (Suc idx) =
     (case back_inner_fp r d q n b 0 of Inl e \<Rightarrow> Inl e | Inr b' \<Rightarrow>
      back_outer_fp r d q n b' idx)"

text \<open>
  \<open>OptionPrice\<close> from the two calls of \<open>malloc\<close> on, for given lattice constants
  \<open>l\<close>, asset price \<open>s\<close> and strike \<open>k\<close>; then the whole function.
\<close>

definition price_fp :: "(real \<Rightarrow> dbl) \<Rightarrow> nat \<Rightarrow> flattice \<Rightarrow> dbl \<Rightarrow> dbl \<Rightarrow> error + dbl" where
  "price_fp r n l s k =
     (case wr_fp (malloc_fp (n + 1)) 0 s of Inl e \<Rightarrow> Inl e | Inr a0 \<Rightarrow>
     (case build_outer_fp r (fl_u l) (fl_v l) n a0 1 of Inl e \<Rightarrow> Inl e | Inr a \<Rightarrow>
     (case payoffs_fp r k n a (malloc_fp (n + 1)) 0 of Inl e \<Rightarrow> Inl e | Inr b0 \<Rightarrow>
     (case back_outer_fp r (fl_discount l) (fl_p l) n b0 n of Inl e \<Rightarrow> Inl e | Inr b \<Rightarrow>
     rd_fp b 0))))"

definition OptionPrice_fp_n :: "fpu \<Rightarrow> nat \<Rightarrow> option_t \<Rightarrow> error + dbl" where
  "OptionPrice_fp_n F n opt =
     price_fp (fp_rnd F) n (lattice_fp F n opt) (Fin (asset opt)) (Fin (strike opt))"

definition OptionPrice_fp :: "fpu \<Rightarrow> option_t \<Rightarrow> error + dbl" where
  "OptionPrice_fp F opt = OptionPrice_fp_n F 1000 opt"

subsection \<open>What the loops over doubles compute\<close>

text \<open>
  \<open>node_fp r u v s c j\<close> is cell \<open>j\<close> of \<open>assetPrices\<close> after \<open>c\<close> steps of the forward
  loop; \<open>expect_fp r d q x1 x0\<close> is the right-hand side of the assignment in the backward
  loop; \<open>sweep_fp\<close> and \<open>value_fp\<close> are one pass and \<open>k\<close> steps of it.
\<close>

fun node_fp :: "(real \<Rightarrow> dbl) \<Rightarrow> dbl \<Rightarrow> dbl \<Rightarrow> dbl \<Rightarrow> nat \<Rightarrow> nat \<Rightarrow> dbl" where
  "node_fp r u' v' s 0 j = s"
| "node_fp r u' v' s (Suc c) 0 = dmul r v' (node_fp r u' v' s c 0)"
| "node_fp r u' v' s (Suc c) (Suc j) = dmul r u' (node_fp r u' v' s c j)"

definition expect_fp :: "(real \<Rightarrow> dbl) \<Rightarrow> dbl \<Rightarrow> dbl \<Rightarrow> dbl \<Rightarrow> dbl \<Rightarrow> dbl" where
  "expect_fp r d q x1 x0 = dmul r d (dadd r (dmul r q x1) (dmul r (dsub r (Fin 1) q) x0))"

definition sweep_fp :: "(dbl \<Rightarrow> dbl \<Rightarrow> dbl) \<Rightarrow> nat \<Rightarrow> (nat \<Rightarrow> dbl) \<Rightarrow> nat \<Rightarrow> dbl" where
  "sweep_fp f m g i = (if i < m then f (g (i + 1)) (g i) else g i)"

fun value_fp :: "(dbl \<Rightarrow> dbl \<Rightarrow> dbl) \<Rightarrow> (nat \<Rightarrow> dbl) \<Rightarrow> nat \<Rightarrow> nat \<Rightarrow> dbl" where
  "value_fp f g 0 i = g i"
| "value_fp f g (Suc k) i = f (value_fp f g k (i + 1)) (value_fp f g k i)"

definition terminal_fp :: "(real \<Rightarrow> dbl) \<Rightarrow> nat \<Rightarrow> flattice \<Rightarrow> dbl \<Rightarrow> dbl \<Rightarrow> nat \<Rightarrow> dbl" where
  "terminal_fp r n l s k j = Payoff_fp r (node_fp r (fl_u l) (fl_v l) s n j) k"

subsection \<open>Rounding, and the sign of a double\<close>

text \<open>
  What is used of the rounding: it is monotone (so it never yields NaN) and leaves the
  doubles 0, 1 and 2 as they are. Rounding to nearest has these properties.
\<close>

definition rounding :: "(real \<Rightarrow> dbl) \<Rightarrow> bool" where
  "rounding r = ((\<forall>x y. x \<le> y \<longrightarrow> dle (r x) (r y)) \<and> r 0 = Fin 0 \<and> r 1 = Fin 1 \<and> r 2 = Fin 2)"

text \<open>Arithmetic without rounding, and the exact \<open>exp\<close>: an instance of the above.\<close>

definition F_exact :: fpu where
  "F_exact = \<lparr>fp_rnd = Fin, fp_exp = (\<lambda>x. Fin (exp x))\<rparr>"

text \<open>
  \<open>x >= 0\<close> (finite or \<open>+inf\<close>), \<open>x < 0\<close>, and its negation, which also holds of NaN;
  finite and \<open>> 0\<close>; finite and in \<open>[0,1]\<close>; finite and \<open>>= 0\<close>; finite.
\<close>

definition d_nonneg :: "dbl \<Rightarrow> bool" where
  "d_nonneg x = dle (Fin 0) x"

definition d_negative :: "dbl \<Rightarrow> bool" where
  "d_negative x = dgt (Fin 0) x"

definition not_negative :: "dbl \<Rightarrow> bool" where
  "not_negative x = (\<not> d_negative x)"

definition pos_fin :: "dbl \<Rightarrow> bool" where
  "pos_fin x = (case x of Fin y \<Rightarrow> 0 < y | _ \<Rightarrow> False)"

definition in_unit :: "dbl \<Rightarrow> bool" where
  "in_unit x = (case x of Fin y \<Rightarrow> 0 \<le> y \<and> y \<le> 1 | _ \<Rightarrow> False)"

definition fin_nonneg :: "dbl \<Rightarrow> bool" where
  "fin_nonneg x = (case x of Fin y \<Rightarrow> 0 \<le> y | _ \<Rightarrow> False)"

definition is_fin :: "dbl \<Rightarrow> bool" where
  "is_fin x = (case x of Fin y \<Rightarrow> True | _ \<Rightarrow> False)"

text \<open>Every cell of a block has been written and its value satisfies \<open>P\<close>.\<close>

definition cells_all :: "(dbl \<Rightarrow> bool) \<Rightarrow> fbuffer \<Rightarrow> bool" where
  "cells_all P b = list_all (\<lambda>c. case c of None \<Rightarrow> False | Some x \<Rightarrow> P x) b"

section \<open>The loops and their closed forms\<close>

declare build_outer.simps [simp del] payoffs.simps [simp del] back_inner.simps [simp del]
  spec_nodes.simps [simp del]

lemma rd_Some: "i < length b \<Longrightarrow> b ! i = Some x \<Longrightarrow> rd b i = Inr x"
  by (simp add: rd_def)

lemma wr_ok: "i < length b \<Longrightarrow> wr b i x = Inr (b[i := Some x])"
  by (simp add: wr_def)

lemma build_inner_ok:
  "j < length a \<Longrightarrow> \<forall>i<j. a ! i = Some (f i) \<Longrightarrow>
   \<exists>a'. build_inner u' a j = Inr a' \<and> length a' = length a \<and> a' ! 0 = a ! 0 \<and>
        (\<forall>i. 0 < i \<and> i \<le> j \<longrightarrow> a' ! i = Some (u' * f (i - 1))) \<and>
        (\<forall>i. j < i \<longrightarrow> a' ! i = a ! i)"
proof (induction j arbitrary: a)
  case 0
  then show ?case by simp
next
  case (Suc j)
  let ?a1 = "a[Suc j := Some (u' * f j)]"
  have r: "rd a j = Inr (f j)" using Suc.prems by (simp add: rd_Some)
  have w: "wr a (Suc j) (u' * f j) = Inr ?a1" using Suc.prems by (simp add: wr_ok)
  have "j < length ?a1" "\<forall>i<j. ?a1 ! i = Some (f i)" using Suc.prems by auto
  from Suc.IH[OF this] obtain a' where
    a': "build_inner u' ?a1 j = Inr a'" "length a' = length ?a1" "a' ! 0 = ?a1 ! 0"
      "\<forall>i. 0 < i \<and> i \<le> j \<longrightarrow> a' ! i = Some (u' * f (i - 1))"
      "\<forall>i. j < i \<longrightarrow> a' ! i = ?a1 ! i" by blast
  have "build_inner u' a (Suc j) = Inr a'" using r w a'(1) by simp
  moreover have "length a' = length a" using a'(2) by simp
  moreover have "a' ! 0 = a ! 0" using a'(3) by simp
  moreover have "\<forall>i. 0 < i \<and> i \<le> Suc j \<longrightarrow> a' ! i = Some (u' * f (i - 1))"
  proof (intro allI impI)
    fix i assume i: "0 < i \<and> i \<le> Suc j"
    show "a' ! i = Some (u' * f (i - 1))"
    proof (cases "i = Suc j")
      case True
      then show ?thesis using a'(5) Suc.prems(1) by simp
    next
      case False
      then show ?thesis using a'(4) i by simp
    qed
  qed
  moreover have "\<forall>i. Suc j < i \<longrightarrow> a' ! i = a ! i" using a'(5) by simp
  ultimately show ?case by blast
qed

lemma buffer_eqI:
  "length a = k \<Longrightarrow> \<forall>i<k. a ! i = Some (f i) \<Longrightarrow> a = map (\<lambda>i. Some (f i)) [0..<k]"
  by (rule nth_equalityI) auto

lemma node_price_up:
  "i \<le> k \<Longrightarrow> u' * node_price s u' v' k i = node_price s u' v' (Suc k) (Suc i)"
  by (simp add: node_price_def)

lemma node_price_down: "v' * node_price s u' v' k 0 = node_price s u' v' (Suc k) 0"
  by (simp add: node_price_def)

lemma build_outer_ok:
  "0 < idx \<Longrightarrow> idx \<le> Suc n \<Longrightarrow> length a = Suc n \<Longrightarrow>
   \<forall>i<idx. a ! i = Some (node_price s u' v' (idx - 1) i) \<Longrightarrow>
   build_outer u' v' n a idx = Inr (map (\<lambda>i. Some (node_price s u' v' n i)) [0..<Suc n])"
proof (induction u' v' n a idx rule: build_outer.induct)
  case (1 u' v' n a idx)
  show ?case
  proof (cases "idx \<le> n")
    case False
    then have "idx = Suc n" using "1.prems" by simp
    then have "a = map (\<lambda>i. Some (node_price s u' v' n i)) [0..<Suc n]"
      using "1.prems" by (intro buffer_eqI) auto
    then show ?thesis using False by (subst build_outer.simps) simp
  next
    case True
    let ?f = "node_price s u' v' (idx - 1)"
    have "idx < length a" using True "1.prems" by simp
    from build_inner_ok[OF this, of ?f u'] "1.prems"(4) obtain a1 where
      a1: "build_inner u' a idx = Inr a1" "length a1 = length a" "a1 ! 0 = a ! 0"
        "\<forall>i. 0 < i \<and> i \<le> idx \<longrightarrow> a1 ! i = Some (u' * ?f (i - 1))" by blast
    have z: "a1 ! 0 = Some (?f 0)" using a1(3) "1.prems" by simp
    then have r: "rd a1 0 = Inr (?f 0)" using a1(2) "1.prems" by (simp add: rd_Some)
    let ?a2 = "a1[0 := Some (v' * ?f 0)]"
    have w: "wr a1 0 (v' * ?f 0) = Inr ?a2" using a1(2) "1.prems" by (simp add: wr_ok)
    have inv: "\<forall>i<Suc idx. ?a2 ! i = Some (node_price s u' v' (Suc idx - 1) i)"
    proof (intro allI impI)
      fix i assume i: "i < Suc idx"
      show "?a2 ! i = Some (node_price s u' v' (Suc idx - 1) i)"
      proof (cases i)
        case 0
        then show ?thesis using a1(2) "1.prems" node_price_down[of v' s u' "idx - 1"] by simp
      next
        case (Suc i')
        then have "a1 ! i = Some (u' * ?f i')" using a1(4) i by simp
        moreover have "u' * ?f i' = node_price s u' v' idx i"
          using node_price_up[of i' "idx - 1" u' s v'] Suc i "1.prems"(1) by simp
        ultimately show ?thesis using Suc by simp
      qed
    qed
    have "build_outer u' v' n ?a2 (Suc idx) =
          Inr (map (\<lambda>i. Some (node_price s u' v' n i)) [0..<Suc n])"
      using "1.IH"[OF True a1(1) r w] True a1(2) "1.prems"(3) inv by simp
    then show ?thesis using True a1(1) r w by (subst build_outer.simps) simp
  qed
qed

lemma payoffs_ok:
  "length a = Suc n \<Longrightarrow> length b = Suc n \<Longrightarrow> \<forall>i\<le>n. a ! i = Some (f i) \<Longrightarrow> jdx \<le> Suc n \<Longrightarrow>
   \<forall>i<jdx. b ! i = Some (Payoff (f i) k) \<Longrightarrow>
   payoffs k n a b jdx = Inr (map (\<lambda>i. Some (Payoff (f i) k)) [0..<Suc n])"
proof (induction k n a b jdx rule: payoffs.induct)
  case (1 k n a b jdx)
  show ?case
  proof (cases "jdx \<le> n")
    case False
    then have "jdx = Suc n" using "1.prems" by simp
    then have "b = map (\<lambda>i. Some (Payoff (f i) k)) [0..<Suc n]"
      using "1.prems" by (intro buffer_eqI) auto
    then show ?thesis using False by (subst payoffs.simps) simp
  next
    case True
    have r: "rd a jdx = Inr (f jdx)" using True "1.prems" by (simp add: rd_Some)
    let ?b' = "b[jdx := Some (Payoff (f jdx) k)]"
    have w: "wr b jdx (Payoff (f jdx) k) = Inr ?b'" using True "1.prems" by (simp add: wr_ok)
    have "jdx < length b" using True "1.prems" by simp
    then have inv: "\<forall>i<Suc jdx. ?b' ! i = Some (Payoff (f i) k)"
      using "1.prems" by (auto simp: nth_list_update less_Suc_eq)
    have "payoffs k n a ?b' (Suc jdx) = Inr (map (\<lambda>i. Some (Payoff (f i) k)) [0..<Suc n])"
      using "1.IH"[OF True r w] "1.prems" True inv by simp
    then show ?thesis using True r w by (subst payoffs.simps) simp
  qed
qed

lemma back_inner_ok:
  "length b = L \<Longrightarrow> m < L \<Longrightarrow> jdx \<le> m \<Longrightarrow>
   \<forall>i<L. b ! i = Some (sweep d q jdx g i) \<Longrightarrow>
   back_inner d q m b jdx = Inr (map (\<lambda>i. Some (sweep d q m g i)) [0..<L])"
proof (induction d q m b jdx rule: back_inner.induct)
  case (1 d q m b jdx)
  show ?case
  proof (cases "jdx < m")
    case False
    then have "jdx = m" using "1.prems" by simp
    then have "b = map (\<lambda>i. Some (sweep d q m g i)) [0..<L]"
      using "1.prems" by (intro buffer_eqI) auto
    then show ?thesis using False by (subst back_inner.simps) simp
  next
    case True
    have r1: "rd b (jdx + 1) = Inr (g (jdx + 1))"
      using True "1.prems" by (simp add: rd_Some sweep_def)
    have r0: "rd b jdx = Inr (g jdx)"
      using True "1.prems" by (simp add: rd_Some sweep_def)
    let ?x = "d * (q * g (jdx + 1) + (1 - q) * g jdx)"
    let ?b' = "b[jdx := Some ?x]"
    have w: "wr b jdx ?x = Inr ?b'" using True "1.prems" by (simp add: wr_ok)
    have inv: "\<forall>i<L. ?b' ! i = Some (sweep d q (Suc jdx) g i)"
      using "1.prems" True by (auto simp: nth_list_update sweep_def less_Suc_eq)
    have "back_inner d q m ?b' (Suc jdx) = Inr (map (\<lambda>i. Some (sweep d q m g i)) [0..<L])"
      using "1.IH"[OF True r1 r0 w] "1.prems" True inv by simp
    then show ?thesis using True r1 r0 w by (subst back_inner.simps) simp
  qed
qed

lemma back_inner_pass:
  "m < L \<Longrightarrow> back_inner d q m (map (\<lambda>i. Some (g i)) [0..<L]) 0 =
     Inr (map (\<lambda>i. Some (sweep d q m g i)) [0..<L])"
  by (rule back_inner_ok) (auto simp: sweep_def)

lemma back_outer_ok:
  "back_outer d q n (map (\<lambda>i. Some (g i)) [0..<Suc n]) k =
     Inr (map (\<lambda>i. Some ((sweep d q n ^^ k) g i)) [0..<Suc n])"
proof (induction k arbitrary: g)
  case 0
  then show ?case by simp
next
  case (Suc k)
  show ?case
    by (simp add: back_inner_pass Suc.IH funpow_swap1 del: upt_Suc back_inner.simps)
qed

lemma value_at_sweep:
  "i + k < m \<Longrightarrow> value_at d q (sweep d q m g) k i = value_at d q g (Suc k) i"
  by (induction k arbitrary: i) (simp_all add: sweep_def)

lemma sweep_funpow:
  "i + k \<le> n \<Longrightarrow> (sweep d q n ^^ k) g i = value_at d q g k i"
proof (induction k arbitrary: g)
  case 0
  then show ?case by simp
next
  case (Suc k)
  have "(sweep d q n ^^ Suc k) g i = (sweep d q n ^^ k) (sweep d q n g) i"
    by (simp add: funpow_swap1)
  also have "\<dots> = value_at d q (sweep d q n g) k i" using Suc by simp
  also have "\<dots> = value_at d q g (Suc k) i" using Suc.prems by (intro value_at_sweep) simp
  finally show ?case .
qed

lemma OptionPrice_on_eq:
  assumes a: "length a0 = Suc n" and b: "length b0 = Suc n"
  shows "OptionPrice_on n a0 b0 opt =
         (case lattice_of n opt of Inl e \<Rightarrow> Inl e | Inr l \<Rightarrow> Inr (lattice_price n opt l))"
proof (cases "lattice_of n opt")
  case (Inl e)
  then show ?thesis by (simp add: OptionPrice_on_def)
next
  case (Inr l)
  let ?a1 = "a0[0 := Some (asset opt)]"
  let ?np = "node_price (asset opt) (lat_u l) (lat_v l) n"
  let ?a = "map (\<lambda>i. Some (?np i)) [0..<Suc n]"
  let ?g = "terminal_payoff n opt l"
  let ?b1 = "map (\<lambda>i. Some (?g i)) [0..<Suc n]"
  let ?b = "map (\<lambda>i. Some ((sweep (lat_discount l) (lat_p l) n ^^ n) ?g i)) [0..<Suc n]"
  have w: "wr a0 0 (asset opt) = Inr ?a1" using a by (simp add: wr_ok)
  have bo: "build_outer (lat_u l) (lat_v l) n ?a1 1 = Inr ?a"
    using a by (intro build_outer_ok) (auto simp: node_price_def)
  have po: "payoffs (strike opt) n ?a b0 0 = Inr ?b1"
    unfolding terminal_payoff_def using b by (intro payoffs_ok) (auto simp del: upt_Suc)
  have ba: "back_outer (lat_discount l) (lat_p l) n ?b1 n = Inr ?b"
    by (rule back_outer_ok)
  have r: "rd ?b 0 = Inr (lattice_price n opt l)"
    by (simp add: rd_def lattice_price_def sweep_funpow del: upt_Suc)
  show ?thesis
    unfolding OptionPrice_on_def using Inr w bo po ba r by (simp del: upt_Suc)
qed

lemma OptionPrice_n_eq:
  "OptionPrice_n n opt =
     (case lattice_of n opt of Inl e \<Rightarrow> Inl e | Inr l \<Rightarrow> Inr (lattice_price n opt l))"
  unfolding OptionPrice_n_def by (rule OptionPrice_on_eq) (simp_all add: malloc_doubles_def)

lemma recip_sum_ge_2:
  fixes x :: real
  assumes "0 < x"
  shows "2 \<le> x + 1 / x"
proof -
  have "0 \<le> (x - 1)\<^sup>2" by simp
  then have "2 * x \<le> x * x + 1" by (simp add: power2_eq_square algebra_simps)
  then have "2 \<le> (x * x + 1) / x" using assms by (simp add: pos_le_divide_eq)
  then show ?thesis using assms by (simp add: add_divide_distrib)
qed

lemma recip_sum_eq_2:
  fixes x :: real
  assumes "0 < x" "x + 1 / x \<le> 2"
  shows "x = 1"
proof -
  have "(x + 1 / x) * x \<le> 2 * x" using assms by (intro mult_right_mono) simp_all
  then have "x * x + 1 \<le> 2 * x" using assms by (simp add: algebra_simps)
  then have "(x - 1)\<^sup>2 \<le> 0" by (simp add: power2_eq_square algebra_simps)
  then show ?thesis by simp
qed

lemma exp_sum_ge_2:
  fixes a b :: real
  assumes "0 \<le> a + b"
  shows "2 \<le> exp a + exp b"
proof -
  have "2 \<le> exp a + 1 / exp a" by (rule recip_sum_ge_2) simp
  moreover have "1 / exp a = exp (- a)" by (simp add: exp_minus inverse_eq_divide)
  moreover have "exp (- a) \<le> exp b" using assms by simp
  ultimately show ?thesis by linarith
qed

lemma exp_sum_eq_2:
  fixes a b :: real
  assumes "0 \<le> a + b" "exp a + exp b = 2"
  shows "a = 0 \<and> b = 0"
proof -
  have e: "1 / exp a = exp (- a)" by (simp add: exp_minus inverse_eq_divide)
  have le: "exp (- a) \<le> exp b" using assms(1) by simp
  then have "exp a + 1 / exp a \<le> 2" using assms(2) e by linarith
  then have "exp a = 1" by (intro recip_sum_eq_2) simp_all
  then have a: "a = 0" by simp
  then have "exp b = 1" using assms(2) by simp
  then show ?thesis using a by simp
qed

lemma ufactor_ge_1:
  assumes "0 \<le> step"
  shows "1 \<le> ufactor_of opt step"
proof -
  have "0 \<le> (volatility opt * volatility opt) * step" using assms by simp
  then have "0 \<le> - rate opt * step + (rate opt + volatility opt * volatility opt) * step"
    by (simp add: algebra_simps)
  from exp_sum_ge_2[OF this] show ?thesis
    by (simp add: ufactor_of_def discount_of_def)
qed

lemma ufactor_eq_1:
  assumes "0 < step" "ufactor_of opt step = 1"
  shows "rate opt = 0 \<and> volatility opt = 0"
proof -
  have "0 \<le> (volatility opt * volatility opt) * step" using assms by simp
  then have s: "0 \<le> - rate opt * step + (rate opt + volatility opt * volatility opt) * step"
    by (simp add: algebra_simps)
  have "exp (- rate opt * step) + exp ((rate opt + volatility opt * volatility opt) * step) = 2"
    using assms(2) by (simp add: ufactor_of_def discount_of_def)
  from exp_sum_eq_2[OF s this] assms(1) show ?thesis by auto
qed

lemma up_down_roots:
  fixes A :: real
  assumes "1 \<le> A"
  shows "1 / (A + sqrt (A * A - 1)) = A - sqrt (A * A - 1)"
proof -
  have "0 \<le> A * A - 1" using assms by (simp add: mult_ge1_I)
  then have "(A + sqrt (A * A - 1)) * (A - sqrt (A * A - 1)) = 1"
    by (simp add: algebra_simps)
  moreover have "0 < A + sqrt (A * A - 1)" using assms \<open>0 \<le> A * A - 1\<close>
    by (intro add_pos_nonneg) simp_all
  ultimately show ?thesis by (simp add: field_simps)
qed

lemma lattice_of_unfold:
  "0 < n \<Longrightarrow> lattice_of n opt =
     (let step = expiry opt / real n; A = ufactor_of opt step in
      if A * A - 1 < 0 then Inl SqrtDomain
      else let u' = A + sqrt (A * A - 1) in
        if u' = 0 then Inl DivByZero
        else if u' - 1 / u' = 0 then Inl DivByZero
        else Inr \<lparr>lat_discount = discount_of opt step, lat_u = u', lat_v = 1 / u',
                  lat_p = (exp (rate opt * step) - 1 / u') / (u' - 1 / u')\<rparr>)"
  by (simp add: lattice_of_def step_of_def c_div_def c_sqrt_def Let_def)

lemma list_eqI: "length xs = k \<Longrightarrow> \<forall>i<k. xs ! i = f i \<Longrightarrow> xs = map f [0..<k]"
  by (rule nth_equalityI) auto

lemma spec_nodes_ok:
  "length vals = L \<Longrightarrow> m < L \<Longrightarrow> j \<le> m \<Longrightarrow> \<forall>i<L. vals ! i = sweep d q j g i \<Longrightarrow>
   spec_nodes d q m vals j = map (sweep d q m g) [0..<L]"
proof (induction d q m vals j rule: spec_nodes.induct)
  case (1 d q m vals j)
  show ?case
  proof (cases "j < m")
    case False
    then have "j = m" using "1.prems" by simp
    then have "vals = map (sweep d q m g) [0..<L]" using "1.prems" by (intro list_eqI) auto
    then show ?thesis using False by (subst spec_nodes.simps) simp
  next
    case True
    let ?x = "d * (q * vals ! (j + 1) + (1 - q) * vals ! j)"
    have x: "?x = d * (q * g (j + 1) + (1 - q) * g j)"
      using True "1.prems" by (simp add: sweep_def)
    have "j < length vals" using True "1.prems" by simp
    then have inv: "\<forall>i<L. vals[j := ?x] ! i = sweep d q (Suc j) g i"
      unfolding x using "1.prems" by (auto simp: nth_list_update sweep_def less_Suc_eq)
    have "spec_nodes d q m (vals[j := ?x]) (Suc j) = map (sweep d q m g) [0..<L]"
      using "1.IH"[OF True] "1.prems" True inv by simp
    then show ?thesis using True by (subst spec_nodes.simps) simp
  qed
qed

lemma spec_nodes_pass:
  "m < L \<Longrightarrow> spec_nodes d q m (map g [0..<L]) 0 = map (sweep d q m g) [0..<L]"
  by (rule spec_nodes_ok) (auto simp: sweep_def)

lemma spec_backward_value:
  "s \<le> n \<Longrightarrow> spec_backward d q (map g [0..<Suc n]) s ! 0 = value_at d q g s 0"
proof (induction s arbitrary: g)
  case 0
  then show ?case by (simp del: upt_Suc)
next
  case (Suc s)
  have "spec_backward d q (map g [0..<Suc n]) (Suc s) ! 0 =
        spec_backward d q (map (sweep d q (Suc s) g) [0..<Suc n]) s ! 0"
    using Suc.prems by (simp add: spec_nodes_pass del: upt_Suc)
  also have "\<dots> = value_at d q (sweep d q (Suc s) g) s 0" using Suc by simp
  also have "\<dots> = value_at d q g (Suc s) 0" by (intro value_at_sweep) simp
  finally show ?case .
qed

lemma Payoff_max: "Payoff x k = max (x - k) 0"
  by (simp add: Payoff_def max_def)

lemma spec_payoffs_eq: "spec_payoffs n opt l = map (terminal_payoff n opt l) [0..<Suc n]"
  by (simp add: spec_payoffs_def terminal_payoff_def node_price_def Payoff_max del: upt_Suc)

lemma spec_price_eq:
  "spec_backward (lat_discount l) (lat_p l) (spec_payoffs n opt l) n ! 0 = lattice_price n opt l"
  unfolding spec_payoffs_eq lattice_price_def by (rule spec_backward_value) simp

lemma back_outer_value:
  assumes "length xs = Suc n"
  shows "\<exists>b. back_outer d q n (map Some xs) n = Inr b \<and>
             rd b 0 = Inr (value_at d q (\<lambda>i. xs ! i) n 0)"
proof -
  have xs: "xs = map (\<lambda>i. xs ! i) [0..<Suc n]" using assms by (intro list_eqI) simp_all
  have "map Some xs = map (\<lambda>i. Some (xs ! i)) [0..<Suc n]" by (subst xs) (simp del: upt_Suc)
  then have "back_outer d q n (map Some xs) n =
             Inr (map (\<lambda>i. Some ((sweep d q n ^^ n) (\<lambda>i. xs ! i) i)) [0..<Suc n])"
    by (simp add: back_outer_ok del: upt_Suc)
  moreover have "rd (map (\<lambda>i. Some ((sweep d q n ^^ n) (\<lambda>i. xs ! i) i)) [0..<Suc n]) 0 =
                 Inr (value_at d q (\<lambda>i. xs ! i) n 0)"
    by (simp add: rd_def sweep_funpow del: upt_Suc)
  ultimately show ?thesis by simp
qed

lemma spec_backward_list:
  assumes "length xs = Suc n"
  shows "spec_backward d q xs n ! 0 = value_at d q (\<lambda>i. xs ! i) n 0"
proof -
  have xs: "xs = map (\<lambda>i. xs ! i) [0..<Suc n]" using assms by (intro list_eqI) simp_all
  show ?thesis by (subst xs) (rule spec_backward_value, simp)
qed

section \<open>The lattice constants and the price\<close>

lemma ufactor_pos: "0 < ufactor_of opt step"
  by (simp add: ufactor_of_def discount_of_def add_pos_pos)

lemma up_factor_pos:
  assumes "\<not> A * A - 1 < 0" "0 < (A::real)"
  shows "0 < A + sqrt (A * A - 1)"
  using assms by (intro add_pos_nonneg) simp_all

lemma spec_ufactor_eq: "spec_ufactor n opt = ufactor_of opt (expiry opt / real n)"
  by (simp add: spec_ufactor_def spec_discount_def spec_dt_def ufactor_of_def discount_of_def
      power2_eq_square)

lemma lattice_of_spec:
  assumes "0 < n"
  shows "lattice_of n opt =
     (if (spec_ufactor n opt)\<^sup>2 < 1 then Inl SqrtDomain
      else if spec_u n opt = spec_v n opt then Inl DivByZero
      else Inr \<lparr>lat_discount = spec_discount n opt, lat_u = spec_u n opt,
                lat_v = spec_v n opt, lat_p = spec_p n opt\<rparr>)"
proof -
  define step where "step = expiry opt / real n"
  define A where "A = ufactor_of opt step"
  have A: "0 < A" unfolding A_def by (rule ufactor_pos)
  have u: "\<not> A * A - 1 < 0 \<Longrightarrow> A + sqrt (A * A - 1) \<noteq> 0"
    using up_factor_pos[of A] A by simp
  have l: "lattice_of n opt =
     (if A * A - 1 < 0 then Inl SqrtDomain
      else if A + sqrt (A * A - 1) - 1 / (A + sqrt (A * A - 1)) = 0 then Inl DivByZero
      else Inr \<lparr>lat_discount = discount_of opt step,
                lat_u = A + sqrt (A * A - 1), lat_v = 1 / (A + sqrt (A * A - 1)),
                lat_p = (exp (rate opt * step) - 1 / (A + sqrt (A * A - 1))) /
                        (A + sqrt (A * A - 1) - 1 / (A + sqrt (A * A - 1)))\<rparr>)"
    unfolding lattice_of_unfold[OF assms] Let_def step_def[symmetric] A_def[symmetric]
    using u by simp
  have s: "spec_ufactor n opt = A" by (simp add: spec_ufactor_eq A_def step_def)
  show ?thesis
    unfolding l spec_p_def spec_v_def spec_u_def s
    by (simp add: power2_eq_square spec_discount_def spec_dt_def discount_of_def step_def)
qed

lemma lattice_of_errors:
  "lattice_of n opt = Inl e \<Longrightarrow> e = SqrtDomain \<or> e = DivByZero"
  by (auto simp: lattice_of_def step_of_def c_div_def c_sqrt_def Let_def
      split: sum.splits if_splits)

lemma between_roots_strict:
  fixes A m :: real
  assumes A: "1 \<le> A" and m: "0 < m" and le: "m + 1 / m < 2 * A"
  shows "A - sqrt (A * A - 1) < m \<and> m < A + sqrt (A * A - 1)"
proof -
  have "(m + 1 / m) * m < 2 * A * m" using le m by (intro mult_strict_right_mono) simp_all
  then have "m * m + 1 < 2 * A * m" using m by (simp add: algebra_simps)
  then have "(m - A)\<^sup>2 < A * A - 1" by (simp add: power2_eq_square algebra_simps)
  then have "sqrt ((m - A)\<^sup>2) < sqrt (A * A - 1)" by (rule real_sqrt_less_mono)
  then have "\<bar>m - A\<bar> < sqrt (A * A - 1)" by simp
  then show ?thesis by linarith
qed

lemma lattice_of_strict:
  assumes n: "0 < n" and T: "0 < expiry opt" and nd: "volatility opt \<noteq> 0"
  shows "\<exists>l. lattice_of n opt = Inr l \<and> 0 < lat_discount l \<and> 1 < lat_u l \<and> 0 < lat_v l \<and>
             0 < lat_p l \<and> lat_p l < 1"
proof -
  define step where "step = expiry opt / real n"
  define A where "A = ufactor_of opt step"
  define s where "s = sqrt (A * A - 1)"
  define m where "m = exp (rate opt * step)"
  have step: "0 < step" using n T by (simp add: step_def)
  have A1: "1 \<le> A" unfolding A_def using step by (intro ufactor_ge_1) simp
  have "A \<noteq> 1" unfolding A_def using ufactor_eq_1[OF step] nd by blast
  then have A: "1 < A" using A1 by simp
  then have "1 * 1 < A * A" by (intro mult_strict_mono) simp_all
  then have r: "0 < A * A - 1" by simp
  then have s: "0 < s" by (simp add: s_def)
  have u: "1 < A + s" using A s by simp
  have v: "1 / (A + s) = A - s" unfolding s_def using A1 by (rule up_down_roots)
  have vpos: "0 < 1 / (A + s)" using u by simp
  have m: "0 < m" by (simp add: m_def)
  have "1 / m = exp (- rate opt * step)" by (simp add: m_def exp_minus inverse_eq_divide)
  moreover have "0 < (volatility opt)\<^sup>2" using nd by simp
  then have "0 < volatility opt * volatility opt * step"
    using step by (simp add: power2_eq_square)
  then have "m < exp ((rate opt + volatility opt * volatility opt) * step)"
    unfolding m_def by (simp add: algebra_simps)
  ultimately have "m + 1 / m < 2 * A"
    by (simp add: A_def ufactor_of_def discount_of_def)
  from between_roots_strict[OF A1 m this] have b: "A - s < m" "m < A + s" by (simp_all add: s_def)
  have d: "0 < (A + s) - (A - s)" using s by simp
  have p0: "0 < (m - (A - s)) / ((A + s) - (A - s))" using b d by (intro divide_pos_pos) simp_all
  have p1: "(m - (A - s)) / ((A + s) - (A - s)) < 1" using b d by (simp add: pos_divide_less_eq)
  have "lattice_of n opt = Inr \<lparr>lat_discount = discount_of opt step, lat_u = A + s, lat_v = 1 / (A + s),
          lat_p = (m - 1 / (A + s)) / ((A + s) - 1 / (A + s))\<rparr>"
    using n r u d v
    by (simp add: lattice_of_unfold Let_def flip: step_def A_def s_def m_def)
  then show ?thesis using u p0 p1 v vpos by (simp add: discount_of_def)
qed

section \<open>The loops over doubles\<close>

declare build_outer_fp.simps [simp del] payoffs_fp.simps [simp del] back_inner_fp.simps [simp del]

lemma rd_fp_Some: "i < length b \<Longrightarrow> b ! i = Some x \<Longrightarrow> rd_fp b i = Inr x"
  by (simp add: rd_fp_def)

lemma wr_fp_ok: "i < length b \<Longrightarrow> wr_fp b i x = Inr (b[i := Some x])"
  by (simp add: wr_fp_def)

lemma build_inner_fp_ok:
  "j < length a \<Longrightarrow> \<forall>i<j. a ! i = Some (f i) \<Longrightarrow>
   \<exists>a'. build_inner_fp r u' a j = Inr a' \<and> length a' = length a \<and> a' ! 0 = a ! 0 \<and>
        (\<forall>i. 0 < i \<and> i \<le> j \<longrightarrow> a' ! i = Some (dmul r u' (f (i - 1)))) \<and>
        (\<forall>i. j < i \<longrightarrow> a' ! i = a ! i)"
proof (induction j arbitrary: a)
  case 0
  then show ?case by simp
next
  case (Suc j)
  let ?a1 = "a[Suc j := Some (dmul r u' (f j))]"
  have rd: "rd_fp a j = Inr (f j)" using Suc.prems by (simp add: rd_fp_Some)
  have wr: "wr_fp a (Suc j) (dmul r u' (f j)) = Inr ?a1" using Suc.prems by (simp add: wr_fp_ok)
  have "j < length ?a1" "\<forall>i<j. ?a1 ! i = Some (f i)" using Suc.prems by auto
  from Suc.IH[OF this] obtain a' where
    a': "build_inner_fp r u' ?a1 j = Inr a'" "length a' = length ?a1" "a' ! 0 = ?a1 ! 0"
      "\<forall>i. 0 < i \<and> i \<le> j \<longrightarrow> a' ! i = Some (dmul r u' (f (i - 1)))"
      "\<forall>i. j < i \<longrightarrow> a' ! i = ?a1 ! i" by blast
  have "build_inner_fp r u' a (Suc j) = Inr a'" using rd wr a'(1) by simp
  moreover have "length a' = length a" using a'(2) by simp
  moreover have "a' ! 0 = a ! 0" using a'(3) by simp
  moreover have "\<forall>i. 0 < i \<and> i \<le> Suc j \<longrightarrow> a' ! i = Some (dmul r u' (f (i - 1)))"
  proof (intro allI impI)
    fix i assume i: "0 < i \<and> i \<le> Suc j"
    show "a' ! i = Some (dmul r u' (f (i - 1)))"
    proof (cases "i = Suc j")
      case True
      then show ?thesis using a'(5) Suc.prems(1) by simp
    next
      case False
      then show ?thesis using a'(4) i by simp
    qed
  qed
  moreover have "\<forall>i. Suc j < i \<longrightarrow> a' ! i = a ! i" using a'(5) by simp
  ultimately show ?case by blast
qed

lemma build_outer_fp_ok:
  "0 < idx \<Longrightarrow> idx \<le> Suc n \<Longrightarrow> length a = Suc n \<Longrightarrow>
   \<forall>i<idx. a ! i = Some (node_fp r u' v' s (idx - 1) i) \<Longrightarrow>
   build_outer_fp r u' v' n a idx = Inr (map (\<lambda>i. Some (node_fp r u' v' s n i)) [0..<Suc n])"
proof (induction r u' v' n a idx rule: build_outer_fp.induct)
  case (1 r u' v' n a idx)
  show ?case
  proof (cases "idx \<le> n")
    case False
    then have "idx = Suc n" using "1.prems" by simp
    then have "a = map (\<lambda>i. Some (node_fp r u' v' s n i)) [0..<Suc n]"
      using "1.prems" by (intro buffer_eqI) auto
    then show ?thesis using False by (subst build_outer_fp.simps) simp
  next
    case True
    let ?f = "node_fp r u' v' s (idx - 1)"
    obtain c where c: "idx = Suc c" using "1.prems"(1) by (cases idx) simp_all
    have "idx < length a" using True "1.prems" by simp
    from build_inner_fp_ok[OF this, of ?f r u'] "1.prems"(4) obtain a1 where
      a1: "build_inner_fp r u' a idx = Inr a1" "length a1 = length a" "a1 ! 0 = a ! 0"
        "\<forall>i. 0 < i \<and> i \<le> idx \<longrightarrow> a1 ! i = Some (dmul r u' (?f (i - 1)))" by blast
    have z: "a1 ! 0 = Some (?f 0)" using a1(3) "1.prems" by simp
    then have rd: "rd_fp a1 0 = Inr (?f 0)" using a1(2) "1.prems" by (simp add: rd_fp_Some)
    let ?a2 = "a1[0 := Some (dmul r v' (?f 0))]"
    have wr: "wr_fp a1 0 (dmul r v' (?f 0)) = Inr ?a2" using a1(2) "1.prems" by (simp add: wr_fp_ok)
    have inv: "\<forall>i<Suc idx. ?a2 ! i = Some (node_fp r u' v' s (Suc idx - 1) i)"
    proof (intro allI impI)
      fix i assume i: "i < Suc idx"
      show "?a2 ! i = Some (node_fp r u' v' s (Suc idx - 1) i)"
      proof (cases i)
        case 0
        then show ?thesis using a1(2) "1.prems" c by simp
      next
        case (Suc i')
        then have "a1 ! i = Some (dmul r u' (?f i'))" using a1(4) i by simp
        then show ?thesis using Suc c by simp
      qed
    qed
    have "build_outer_fp r u' v' n ?a2 (Suc idx) =
          Inr (map (\<lambda>i. Some (node_fp r u' v' s n i)) [0..<Suc n])"
      using "1.IH"[OF True a1(1) rd wr] True a1(2) "1.prems"(3) inv by simp
    then show ?thesis using True a1(1) rd wr by (subst build_outer_fp.simps) simp
  qed
qed

lemma payoffs_fp_ok:
  "length a = Suc n \<Longrightarrow> length b = Suc n \<Longrightarrow> \<forall>i\<le>n. a ! i = Some (f i) \<Longrightarrow> jdx \<le> Suc n \<Longrightarrow>
   \<forall>i<jdx. b ! i = Some (Payoff_fp r (f i) k) \<Longrightarrow>
   payoffs_fp r k n a b jdx = Inr (map (\<lambda>i. Some (Payoff_fp r (f i) k)) [0..<Suc n])"
proof (induction r k n a b jdx rule: payoffs_fp.induct)
  case (1 r k n a b jdx)
  show ?case
  proof (cases "jdx \<le> n")
    case False
    then have "jdx = Suc n" using "1.prems" by simp
    then have "b = map (\<lambda>i. Some (Payoff_fp r (f i) k)) [0..<Suc n]"
      using "1.prems" by (intro buffer_eqI) auto
    then show ?thesis using False by (subst payoffs_fp.simps) simp
  next
    case True
    have rd: "rd_fp a jdx = Inr (f jdx)" using True "1.prems" by (simp add: rd_fp_Some)
    let ?b' = "b[jdx := Some (Payoff_fp r (f jdx) k)]"
    have wr: "wr_fp b jdx (Payoff_fp r (f jdx) k) = Inr ?b'"
      using True "1.prems" by (simp add: wr_fp_ok)
    have "jdx < length b" using True "1.prems" by simp
    then have inv: "\<forall>i<Suc jdx. ?b' ! i = Some (Payoff_fp r (f i) k)"
      using "1.prems" by (auto simp: nth_list_update less_Suc_eq)
    have "payoffs_fp r k n a ?b' (Suc jdx) = Inr (map (\<lambda>i. Some (Payoff_fp r (f i) k)) [0..<Suc n])"
      using "1.IH"[OF True rd wr] "1.prems" True inv by simp
    then show ?thesis using True rd wr by (subst payoffs_fp.simps) simp
  qed
qed

lemma back_inner_fp_ok:
  "length b = L \<Longrightarrow> m < L \<Longrightarrow> jdx \<le> m \<Longrightarrow>
   \<forall>i<L. b ! i = Some (sweep_fp (expect_fp r d q) jdx g i) \<Longrightarrow>
   back_inner_fp r d q m b jdx = Inr (map (\<lambda>i. Some (sweep_fp (expect_fp r d q) m g i)) [0..<L])"
proof (induction r d q m b jdx rule: back_inner_fp.induct)
  case (1 r d q m b jdx)
  show ?case
  proof (cases "jdx < m")
    case False
    then have "jdx = m" using "1.prems" by simp
    then have "b = map (\<lambda>i. Some (sweep_fp (expect_fp r d q) m g i)) [0..<L]"
      using "1.prems" by (intro buffer_eqI) auto
    then show ?thesis using False by (subst back_inner_fp.simps) simp
  next
    case True
    have r1: "rd_fp b (jdx + 1) = Inr (g (jdx + 1))"
      using True "1.prems" by (simp add: rd_fp_Some sweep_fp_def)
    have r0: "rd_fp b jdx = Inr (g jdx)"
      using True "1.prems" by (simp add: rd_fp_Some sweep_fp_def)
    let ?x = "dmul r d (dadd r (dmul r q (g (jdx + 1))) (dmul r (dsub r (Fin 1) q) (g jdx)))"
    let ?b' = "b[jdx := Some ?x]"
    have wr: "wr_fp b jdx ?x = Inr ?b'" using True "1.prems" by (simp add: wr_fp_ok)
    have inv: "\<forall>i<L. ?b' ! i = Some (sweep_fp (expect_fp r d q) (Suc jdx) g i)"
      using "1.prems" True by (auto simp: nth_list_update sweep_fp_def expect_fp_def less_Suc_eq)
    have "back_inner_fp r d q m ?b' (Suc jdx) =
          Inr (map (\<lambda>i. Some (sweep_fp (expect_fp r d q) m g i)) [0..<L])"
      using "1.IH"[OF True r1 r0 wr] "1.prems" True inv by simp
    then show ?thesis using True r1 r0 wr by (subst back_inner_fp.simps) simp
  qed
qed

lemma back_inner_fp_pass:
  "m < L \<Longrightarrow> back_inner_fp r d q m (map (\<lambda>i. Some (g i)) [0..<L]) 0 =
     Inr (map (\<lambda>i. Some (sweep_fp (expect_fp r d q) m g i)) [0..<L])"
  by (rule back_inner_fp_ok) (auto simp: sweep_fp_def)

lemma back_outer_fp_ok:
  "back_outer_fp r d q n (map (\<lambda>i. Some (g i)) [0..<Suc n]) k =
     Inr (map (\<lambda>i. Some ((sweep_fp (expect_fp r d q) n ^^ k) g i)) [0..<Suc n])"
proof (induction k arbitrary: g)
  case 0
  then show ?case by simp
next
  case (Suc k)
  show ?case
    by (simp add: back_inner_fp_pass Suc.IH funpow_swap1 del: upt_Suc)
qed

lemma value_fp_sweep:
  "i + k < m \<Longrightarrow> value_fp f (sweep_fp f m g) k i = value_fp f g (Suc k) i"
  by (induction k arbitrary: i) (simp_all add: sweep_fp_def)

lemma sweep_fp_funpow:
  "i + k \<le> n \<Longrightarrow> (sweep_fp f n ^^ k) g i = value_fp f g k i"
proof (induction k arbitrary: g)
  case 0
  then show ?case by simp
next
  case (Suc k)
  have "(sweep_fp f n ^^ Suc k) g i = (sweep_fp f n ^^ k) (sweep_fp f n g) i"
    by (simp add: funpow_swap1)
  also have "\<dots> = value_fp f (sweep_fp f n g) k i" using Suc by simp
  also have "\<dots> = value_fp f g (Suc k) i" using Suc.prems by (intro value_fp_sweep) simp
  finally show ?case .
qed

lemma price_fp_eq:
  "price_fp r n l s k =
     Inr (value_fp (expect_fp r (fl_discount l) (fl_p l)) (terminal_fp r n l s k) n 0)"
proof -
  let ?ai = "(malloc_fp (n + 1))[0 := Some s]"
  let ?np = "node_fp r (fl_u l) (fl_v l) s n"
  let ?a = "map (\<lambda>i. Some (?np i)) [0..<Suc n]"
  let ?g = "terminal_fp r n l s k"
  let ?f = "expect_fp r (fl_discount l) (fl_p l)"
  let ?bi = "map (\<lambda>i. Some (?g i)) [0..<Suc n]"
  let ?b = "map (\<lambda>i. Some ((sweep_fp ?f n ^^ n) ?g i)) [0..<Suc n]"
  have w: "wr_fp (malloc_fp (n + 1)) 0 s = Inr ?ai" by (simp add: wr_fp_ok malloc_fp_def)
  have bo: "build_outer_fp r (fl_u l) (fl_v l) n ?ai 1 = Inr ?a"
    by (rule build_outer_fp_ok) (simp_all add: malloc_fp_def)
  have po: "payoffs_fp r k n ?a (malloc_fp (n + 1)) 0 = Inr ?bi"
    unfolding terminal_fp_def by (rule payoffs_fp_ok) (simp_all add: malloc_fp_def del: upt_Suc)
  have ba: "back_outer_fp r (fl_discount l) (fl_p l) n ?bi n = Inr ?b"
    by (rule back_outer_fp_ok)
  have rd: "rd_fp ?b 0 = Inr (value_fp ?f ?g n 0)"
    by (simp add: rd_fp_def sweep_fp_funpow del: upt_Suc)
  show ?thesis
    unfolding price_fp_def using w bo po ba rd by (simp del: upt_Suc)
qed

lemma rounding_mono: "rounding r \<Longrightarrow> x \<le> y \<Longrightarrow> dle (r x) (r y)"
  by (simp add: rounding_def)

lemma dle_refl_iff: "dle x x \<longleftrightarrow> x \<noteq> NaN"
  by (cases x) simp_all

lemma rounding_not_NaN: "rounding r \<Longrightarrow> r x \<noteq> NaN"
  using rounding_mono[of r x x] by (simp add: dle_refl_iff)

lemma rounding_nonneg: "rounding r \<Longrightarrow> 0 \<le> x \<Longrightarrow> d_nonneg (r x)"
  using rounding_mono[of r 0 x] by (simp add: rounding_def d_nonneg_def)

lemma dle_PInf: "x \<noteq> NaN \<Longrightarrow> dle x PInf"
  by (cases x) simp_all

lemma dle_trans: "dle x y \<Longrightarrow> dle y z \<Longrightarrow> dle x z"
  by (cases x; cases y; cases z) simp_all

lemma d_nonneg_dle: "d_nonneg x \<Longrightarrow> dle x y \<Longrightarrow> d_nonneg y"
  unfolding d_nonneg_def by (rule dle_trans)

lemma d_nonneg_simps [simp]:
  "d_nonneg (Fin y) = (0 \<le> y)" "d_nonneg PInf" "\<not> d_nonneg NInf" "\<not> d_nonneg NaN"
  by (simp_all add: d_nonneg_def)

lemma d_negative_simps [simp]:
  "d_negative (Fin y) = (y < 0)" "\<not> d_negative PInf" "d_negative NInf" "\<not> d_negative NaN"
  by (auto simp: d_negative_def dgt_def)

lemma d_nonneg_not_negative: "d_nonneg x \<Longrightarrow> \<not> d_negative x"
  by (cases x) simp_all

lemma rnd_mul_nonneg: "rounding r \<Longrightarrow> 0 \<le> a \<Longrightarrow> 0 \<le> b \<Longrightarrow> d_nonneg (r (a * b))"
  by (simp add: rounding_nonneg)

lemma rnd_add_nonneg: "rounding r \<Longrightarrow> 0 \<le> a \<Longrightarrow> 0 \<le> b \<Longrightarrow> d_nonneg (r (a + b))"
  by (simp add: rounding_nonneg)

lemma dmul_not_negative:
  assumes r: "rounding r" and c: "d_nonneg c" and x: "\<not> d_negative x"
  shows "\<not> d_negative (dmul r c x)"
  using c x rnd_mul_nonneg[OF r, THEN d_nonneg_not_negative]
  by (cases c; cases x) (simp_all add: signed_inf_def sgn_real_def)

lemma dadd_not_negative:
  assumes r: "rounding r" and x: "\<not> d_negative x" and y: "\<not> d_negative y"
  shows "\<not> d_negative (dadd r x y)"
  using x y rnd_add_nonneg[OF r, THEN d_nonneg_not_negative]
  by (cases x; cases y) simp_all

lemma rounding_unit:
  assumes r: "rounding r" and x: "0 \<le> x" "x \<le> 1"
  shows "in_unit (r x)"
proof -
  have "dle (Fin 0) (r x)" "dle (r x) (Fin 1)"
    using rounding_mono[OF r x(1)] rounding_mono[OF r x(2)] r by (simp_all add: rounding_def)
  then show ?thesis by (cases "r x") (simp_all add: in_unit_def)
qed

lemma in_unit_fin_nonneg: "in_unit x \<Longrightarrow> fin_nonneg x"
  by (cases x) (simp_all add: in_unit_def fin_nonneg_def)

lemma fin_nonneg_d_nonneg: "fin_nonneg x \<Longrightarrow> d_nonneg x"
  by (cases x) (simp_all add: fin_nonneg_def)

lemma one_minus_unit:
  assumes r: "rounding r" and p: "in_unit p"
  shows "in_unit (dsub r (Fin 1) p)"
  using p rounding_unit[OF r] by (cases p) (simp_all add: in_unit_def dsub_def)

lemma expect_fp_not_negative:
  assumes "rounding r" "d_nonneg d" "in_unit q" "\<not> d_negative x1" "\<not> d_negative x0"
  shows "\<not> d_negative (expect_fp r d q x1 x0)"
proof -
  have q: "d_nonneg q" using assms(3) by (intro fin_nonneg_d_nonneg in_unit_fin_nonneg)
  have q1: "d_nonneg (dsub r (Fin 1) q)"
    using assms(1,3) by (intro fin_nonneg_d_nonneg in_unit_fin_nonneg one_minus_unit)
  show ?thesis unfolding expect_fp_def
    by (intro dmul_not_negative dadd_not_negative assms q q1)
qed

lemma dmul_nonneg:
  assumes r: "rounding r" and c: "pos_fin c \<or> (fin_nonneg c \<and> fin_nonneg x)" and x: "d_nonneg x"
  shows "d_nonneg (dmul r c x)"
  using c x rnd_mul_nonneg[OF r]
  by (cases c; cases x) (auto simp: pos_fin_def fin_nonneg_def signed_inf_def sgn_real_def)

lemma dadd_nonneg:
  assumes r: "rounding r" and x: "d_nonneg x" and y: "d_nonneg y"
  shows "d_nonneg (dadd r x y)"
  using x y rnd_add_nonneg[OF r] by (cases x; cases y) simp_all

lemma expect_fp_nonneg_fin:
  assumes r: "rounding r" and d: "pos_fin d" and q: "in_unit q"
    and x1: "fin_nonneg x1" and x0: "fin_nonneg x0"
  shows "d_nonneg (expect_fp r d q x1 x0)"
proof -
  have fq: "fin_nonneg q" using q by (rule in_unit_fin_nonneg)
  have fq1: "fin_nonneg (dsub r (Fin 1) q)"
    using r q by (intro in_unit_fin_nonneg one_minus_unit)
  have a: "d_nonneg (dmul r q x1)"
    using fq x1 by (intro dmul_nonneg[OF r] fin_nonneg_d_nonneg) simp_all
  have b: "d_nonneg (dmul r (dsub r (Fin 1) q) x0)"
    using fq1 x0 by (intro dmul_nonneg[OF r] fin_nonneg_d_nonneg) simp_all
  have "d_nonneg (dadd r (dmul r q x1) (dmul r (dsub r (Fin 1) q) x0))"
    using r a b by (rule dadd_nonneg)
  then show ?thesis unfolding expect_fp_def using d by (intro dmul_nonneg[OF r]) simp_all
qed

lemma rounding_exact: "rounding Fin"
  by (simp add: rounding_def)

lemma Payoff_fp_nonneg:
  assumes r: "rounding r"
  shows "d_nonneg (Payoff_fp r x k)"
proof (cases "dgt x k")
  case False
  then show ?thesis by (simp add: Payoff_fp_def)
next
  case True
  then have "d_nonneg (dsub r x k)"
    using rounding_nonneg[OF r] by (cases x; cases k) (simp_all add: dgt_def dsub_def)
  then show ?thesis using True by (simp add: Payoff_fp_def)
qed

lemma value_fp_not_negative:
  assumes f: "\<And>x1 x0. \<not> d_negative x1 \<Longrightarrow> \<not> d_negative x0 \<Longrightarrow> \<not> d_negative (f x1 x0)"
    and g: "\<And>j. \<not> d_negative (g j)"
  shows "\<not> d_negative (value_fp f g k i)"
  by (induction k arbitrary: i) (simp_all add: f g)

lemma cells_all_map: "\<forall>i<k. P (f i) \<Longrightarrow> cells_all P (map (\<lambda>i. Some (f i)) [0..<k])"
  by (simp add: cells_all_def list_all_iff)

lemma cells_all_nth: "cells_all P b \<Longrightarrow> i < length b \<Longrightarrow> \<exists>x. b ! i = Some x \<and> P x"
  by (auto simp: cells_all_def list_all_length split: option.splits)

lemma cells_all_written:
  assumes "cells_all P b" "length b = k"
  shows "b = map (\<lambda>i. Some (the (b ! i))) [0..<k] \<and> (\<forall>i<k. P (the (b ! i)))"
proof -
  have g: "\<forall>i<k. b ! i = Some (the (b ! i)) \<and> P (the (b ! i))"
    using assms cells_all_nth[of P b] by fastforce
  then have "b = map (\<lambda>i. Some (the (b ! i))) [0..<k]"
    using assms(2) by (intro buffer_eqI) simp_all
  then show ?thesis using g by blast
qed

lemma payoffs_fp_nonneg:
  assumes r: "rounding r" and a: "length a = Suc n" "list_all (\<lambda>c. c \<noteq> None) a"
    and b: "length b = Suc n"
  shows "\<exists>b'. payoffs_fp r k n a b 0 = Inr b' \<and> length b' = Suc n \<and> cells_all d_nonneg b'"
proof -
  let ?f = "\<lambda>i. the (a ! i)"
  have "\<forall>i\<le>n. a ! i = Some (?f i)" using a by (auto simp: list_all_length)
  then have "payoffs_fp r k n a b 0 = Inr (map (\<lambda>i. Some (Payoff_fp r (?f i) k)) [0..<Suc n])"
    using a b by (intro payoffs_fp_ok) simp_all
  moreover have "cells_all d_nonneg (map (\<lambda>i. Some (Payoff_fp r (?f i) k)) [0..<Suc n])"
    by (intro cells_all_map) (simp add: Payoff_fp_nonneg[OF r])
  ultimately show ?thesis by simp
qed

lemma back_inner_fp_cells:
  assumes f: "\<And>x1 x0. P x1 \<Longrightarrow> P x0 \<Longrightarrow> Q (expect_fp r d q x1 x0)"
    and PQ: "\<And>x. P x \<Longrightarrow> Q x"
    and c: "length c = Suc n" "cells_all P c"
  shows "\<exists>c'. back_inner_fp r d q n c 0 = Inr c' \<and> length c' = Suc n \<and> cells_all Q c'"
proof -
  let ?g = "\<lambda>i. the (c ! i)"
  from cells_all_written[OF c(2,1)]
  have e: "c = map (\<lambda>i. Some (?g i)) [0..<Suc n]" and g: "\<forall>i<Suc n. P (?g i)" by blast+
  have "back_inner_fp r d q n (map (\<lambda>i. Some (?g i)) [0..<Suc n]) 0 =
        Inr (map (\<lambda>i. Some (sweep_fp (expect_fp r d q) n ?g i)) [0..<Suc n])"
    by (rule back_inner_fp_pass) simp
  then have "back_inner_fp r d q n c 0 =
        Inr (map (\<lambda>i. Some (sweep_fp (expect_fp r d q) n ?g i)) [0..<Suc n])"
    using e by simp
  moreover have "cells_all Q (map (\<lambda>i. Some (sweep_fp (expect_fp r d q) n ?g i)) [0..<Suc n])"
  proof (intro cells_all_map allI impI)
    fix i assume "i < Suc n"
    then show "Q (sweep_fp (expect_fp r d q) n ?g i)"
      using g f[of "?g (i + 1)" "?g i"] PQ[of "?g i"] by (simp add: sweep_fp_def)
  qed
  ultimately show ?thesis by simp
qed

lemma price_fp_not_negative:
  assumes r: "rounding r" and p: "in_unit (fl_p l)" and d: "d_nonneg (fl_discount l)"
  shows "\<exists>x. price_fp r n l s k = Inr x \<and> \<not> d_negative x"
proof -
  have "\<not> d_negative (value_fp (expect_fp r (fl_discount l) (fl_p l)) (terminal_fp r n l s k) n 0)"
  proof (rule value_fp_not_negative)
    show "\<not> d_negative (expect_fp r (fl_discount l) (fl_p l) x1 x0)"
      if "\<not> d_negative x1" "\<not> d_negative x0" for x1 x0
      using r d p that by (rule expect_fp_not_negative)
    show "\<not> d_negative (terminal_fp r n l s k j)" for j
      unfolding terminal_fp_def by (intro d_nonneg_not_negative Payoff_fp_nonneg r)
  qed
  then show ?thesis by (simp add: price_fp_eq)
qed

lemma dle_not_NaN: "dle x y \<Longrightarrow> x \<noteq> NaN \<and> y \<noteq> NaN"
  by (cases x; cases y) simp_all

lemma dmul_mono:
  assumes r: "rounding r" and c: "pos_fin c" and x: "d_nonneg x" and xy: "dle x y"
  shows "dle (dmul r c x) (dmul r c y)"
proof -
  obtain c' where c': "c = Fin c'" "0 < c'" using c by (cases c) (simp_all add: pos_fin_def)
  have m: "a \<le> b \<Longrightarrow> dle (r (c' * a)) (r (c' * b))" for a b
    using c'(2) by (intro rounding_mono[OF r]) simp
  show ?thesis using x xy c' m rounding_not_NaN[OF r]
    by (cases x; cases y) (simp_all add: signed_inf_def dle_PInf)
qed

lemma dadd_mono:
  assumes r: "rounding r" and x: "d_nonneg x" "dle x x'" and y: "d_nonneg y" "dle y y'"
  shows "dle (dadd r x y) (dadd r x' y')"
proof -
  have m: "a \<le> a' \<Longrightarrow> b \<le> b' \<Longrightarrow> dle (r (a + b)) (r (a' + b'))" for a a' b b'
    by (intro rounding_mono[OF r]) simp
  show ?thesis using x y m rounding_not_NaN[OF r]
    by (cases x; cases x'; cases y; cases y') (simp_all add: dle_PInf)
qed

lemma expect_fp_mono:
  assumes r: "rounding r" and d: "pos_fin d" and q: "pos_fin q" "pos_fin (dsub r (Fin 1) q)"
    and x1: "d_nonneg x1" "dle x1 y1" and x0: "d_nonneg x0" "dle x0 y0"
  shows "dle (expect_fp r d q x1 x0) (expect_fp r d q y1 y0) \<and> d_nonneg (expect_fp r d q x1 x0)"
proof -
  have a: "d_nonneg (dmul r q x1)" using r q(1) x1(1) by (intro dmul_nonneg) simp_all
  have b: "d_nonneg (dmul r (dsub r (Fin 1) q) x0)" using r q(2) x0(1) by (intro dmul_nonneg) simp_all
  have s: "d_nonneg (dadd r (dmul r q x1) (dmul r (dsub r (Fin 1) q) x0))"
    using r a b by (rule dadd_nonneg)
  have "dle (dadd r (dmul r q x1) (dmul r (dsub r (Fin 1) q) x0))
            (dadd r (dmul r q y1) (dmul r (dsub r (Fin 1) q) y0))"
    using r a b q x1 x0 by (intro dadd_mono dmul_mono)
  then have "dle (expect_fp r d q x1 x0) (expect_fp r d q y1 y0)"
    unfolding expect_fp_def using r d s by (intro dmul_mono)
  moreover have "d_nonneg (expect_fp r d q x1 x0)"
    unfolding expect_fp_def using r d s by (intro dmul_nonneg) simp_all
  ultimately show ?thesis by simp
qed

lemma Payoff_fp_mono:
  assumes r: "rounding r" and xy: "dle x y"
  shows "dle (Payoff_fp r x (Fin k)) (Payoff_fp r y (Fin k))"
proof (cases "dgt x (Fin k)")
  case False
  then show ?thesis using Payoff_fp_nonneg[OF r, of y "Fin k"]
    by (simp add: Payoff_fp_def d_nonneg_def)
next
  case True
  have m: "a \<le> b \<Longrightarrow> dle (r (a + - k)) (r (b + - k))" for a b
    by (intro rounding_mono[OF r]) simp
  show ?thesis using True xy m rounding_not_NaN[OF r]
    by (cases x; cases y) (auto simp: Payoff_fp_def dgt_def dsub_def dle_PInf)
qed

lemma node_fp_mono:
  assumes r: "rounding r" and u: "pos_fin u'" and v: "pos_fin v'"
    and s: "d_nonneg s" "dle s t"
  shows "dle (node_fp r u' v' s c j) (node_fp r u' v' t c j) \<and> d_nonneg (node_fp r u' v' s c j)"
proof (induction c arbitrary: j)
  case 0
  then show ?case using s by simp
next
  case (Suc c)
  show ?case
  proof (cases j)
    case 0
    then show ?thesis using Suc[of 0] r v
      by (simp add: dmul_mono dmul_nonneg)
  next
    case (Suc j')
    then show ?thesis using Suc.IH[of j'] r u
      by (simp add: dmul_mono dmul_nonneg)
  qed
qed

lemma value_fp_mono:
  assumes f: "\<And>x1 y1 x0 y0. d_nonneg x1 \<Longrightarrow> dle x1 y1 \<Longrightarrow> d_nonneg x0 \<Longrightarrow> dle x0 y0 \<Longrightarrow>
                dle (f x1 x0) (f y1 y0) \<and> d_nonneg (f x1 x0)"
    and g: "\<And>j. dle (g j) (h j) \<and> d_nonneg (g j)"
  shows "dle (value_fp f g k i) (value_fp f h k i) \<and> d_nonneg (value_fp f g k i)"
proof (induction k arbitrary: i)
  case 0
  then show ?case using g by simp
next
  case (Suc k)
  show ?case using f[of "value_fp f g k (i + 1)" "value_fp f h k (i + 1)"
                      "value_fp f g k i" "value_fp f h k i"] Suc[of i] Suc[of "i + 1"]
    by simp
qed

lemma price_fp_mono:
  assumes r: "rounding r" and u: "pos_fin (fl_u l)" and v: "pos_fin (fl_v l)"
    and d: "pos_fin (fl_discount l)" and p: "pos_fin (fl_p l)" "pos_fin (dsub r (Fin 1) (fl_p l))"
    and s: "0 \<le> s1" "s1 \<le> s2"
  shows "\<exists>x1 x2. price_fp r n l (Fin s1) (Fin k) = Inr x1 \<and>
           price_fp r n l (Fin s2) (Fin k) = Inr x2 \<and> dle x1 x2 \<and> d_nonneg x1"
proof -
  let ?f = "expect_fp r (fl_discount l) (fl_p l)"
  have "dle (value_fp ?f (terminal_fp r n l (Fin s1) (Fin k)) n 0)
            (value_fp ?f (terminal_fp r n l (Fin s2) (Fin k)) n 0) \<and>
        d_nonneg (value_fp ?f (terminal_fp r n l (Fin s1) (Fin k)) n 0)"
  proof (rule value_fp_mono)
    show "dle (?f x1 x0) (?f y1 y0) \<and> d_nonneg (?f x1 x0)"
      if "d_nonneg x1" "dle x1 y1" "d_nonneg x0" "dle x0 y0" for x1 y1 x0 y0
      using r d p that by (rule expect_fp_mono)
    show "dle (terminal_fp r n l (Fin s1) (Fin k) j) (terminal_fp r n l (Fin s2) (Fin k) j) \<and>
          d_nonneg (terminal_fp r n l (Fin s1) (Fin k) j)" for j
      unfolding terminal_fp_def using node_fp_mono[OF r u v, of "Fin s1" "Fin s2" n j] s
      by (simp add: Payoff_fp_mono[OF r] Payoff_fp_nonneg[OF r])
  qed
  then show ?thesis by (simp add: price_fp_eq)
qed

lemma expect_fp_NaN_right: "expect_fp r d q x1 NaN = NaN"
  by (cases "dsub r (Fin 1) q"; cases "dmul r q x1"; cases d) (simp_all add: expect_fp_def)

lemma expect_fp_not_fin:
  assumes "\<not> is_fin q" "d_nonneg x1" "d_nonneg x0"
  shows "expect_fp r d q x1 x0 = NaN"
  using assms
  by (cases q; cases x1; cases x0; cases d)
     (simp_all add: expect_fp_def is_fin_def dsub_def signed_inf_def sgn_real_def)

lemma value_fp_NaN:
  assumes q: "\<not> is_fin q" and g: "\<And>j. d_nonneg (g j)"
  shows "value_fp (expect_fp r d q) g (Suc k) i = NaN"
proof (induction k arbitrary: i)
  case 0
  then show ?case using q g by (simp add: expect_fp_not_fin)
next
  case (Suc k)
  have "value_fp (expect_fp r d q) g (Suc (Suc k)) i =
        expect_fp r d q (value_fp (expect_fp r d q) g (Suc k) (i + 1))
          (value_fp (expect_fp r d q) g (Suc k) i)" by simp
  also have "\<dots> = NaN" unfolding Suc[of i] by (rule expect_fp_NaN_right)
  finally show ?case .
qed

lemma price_fp_NaN:
  assumes r: "rounding r" and q: "\<not> is_fin (fl_p l)" and n: "0 < n"
  shows "price_fp r n l s k = Inr NaN"
proof -
  obtain m where m: "n = Suc m" using n by (cases n) simp_all
  have "value_fp (expect_fp r (fl_discount l) (fl_p l)) (terminal_fp r n l s k) (Suc m) 0 = NaN"
    using q by (rule value_fp_NaN) (simp add: terminal_fp_def Payoff_fp_nonneg[OF r])
  then show ?thesis unfolding price_fp_eq m by simp
qed

lemma rounding_0: "rounding r \<Longrightarrow> r 0 = Fin 0"
  and rounding_1: "rounding r \<Longrightarrow> r 1 = Fin 1"
  and rounding_2: "rounding r \<Longrightarrow> r 2 = Fin 2"
  by (simp_all add: rounding_def)

lemma NaN_right [simp]:
  "dmul r a NaN = NaN" "dadd r a NaN = NaN" "ddiv r a NaN = NaN" "dsub r a NaN = NaN"
  by (cases a; simp add: dsub_def)+

lemma ddiv_zero_not_fin: "\<not> is_fin (ddiv r x (Fin 0))"
  by (cases x) (simp_all add: is_fin_def signed_inf_def)

lemma lattice_fp_unit_ufactor:
  assumes r: "rounding (fp_rnd F)" and u: "ufactor_fp F opt (step_fp F n opt) = Fin 1"
  shows "fl_u (lattice_fp F n opt) = Fin 1 \<and> fl_v (lattice_fp F n opt) = Fin 1 \<and>
         \<not> is_fin (fl_p (lattice_fp F n opt))"
proof -
  note z = rounding_0[OF r] rounding_1[OF r]
  have u': "fl_u (lattice_fp F n opt) = Fin 1"
    by (simp add: lattice_fp_def Let_def u dsub_def z)
  have v': "fl_v (lattice_fp F n opt) = Fin 1"
    by (simp add: lattice_fp_def Let_def u dsub_def z)
  have "fl_p (lattice_fp F n opt) =
        ddiv (fp_rnd F)
          (dsub (fp_rnd F)
             (dexp (fp_exp F) (dmul (fp_rnd F) (Fin (rate opt)) (step_fp F n opt))) (Fin 1))
          (Fin 0)"
    by (simp add: lattice_fp_def Let_def u dsub_def z)
  then show ?thesis using u' v' by (simp add: ddiv_zero_not_fin)
qed

lemma lattice_fp_NaN_ufactor:
  assumes u: "ufactor_fp F opt (step_fp F n opt) = NaN"
  shows "\<not> is_fin (fl_p (lattice_fp F n opt))"
  by (simp add: lattice_fp_def Let_def u dsub_def is_fin_def)

lemma ufactor_fp_degenerate:
  assumes r: "rounding (fp_rnd F)" and e: "fp_exp F 0 = Fin 1"
    and z: "rate opt = 0" "volatility opt = 0"
  shows "ufactor_fp F opt step = Fin 1 \<or> ufactor_fp F opt step = NaN"
  using rounding_0[OF r] rounding_1[OF r] rounding_2[OF r] e z
  by (cases step)
     (simp_all add: ufactor_fp_def discount_fp_def signed_inf_def)

lemma OptionPrice_fp_unit_ufactor:
  assumes r: "rounding (fp_rnd F)"
    and u: "ufactor_fp F opt (step_fp F 1000 opt) = Fin 1 \<or> ufactor_fp F opt (step_fp F 1000 opt) = NaN"
  shows "OptionPrice_fp F opt = Inr NaN"
proof -
  have "\<not> is_fin (fl_p (lattice_fp F 1000 opt))"
    using u lattice_fp_unit_ufactor[OF r, of opt 1000] lattice_fp_NaN_ufactor[of F opt 1000] by blast
  then show ?thesis unfolding OptionPrice_fp_def OptionPrice_fp_n_def
    using r by (intro price_fp_NaN) simp_all
qed

lemma lattice_fp_exact:
  assumes "lattice_of n opt = Inr l"
  shows "lattice_fp F_exact n opt =
         \<lparr>fl_discount = Fin (lat_discount l), fl_u = Fin (lat_u l), fl_v = Fin (lat_v l),
          fl_p = Fin (lat_p l)\<rparr>"
  using assms
  by (auto simp: lattice_of_def lattice_fp_def step_of_def step_fp_def c_div_def c_sqrt_def
        discount_of_def discount_fp_def ufactor_of_def ufactor_fp_def F_exact_def Let_def dsub_def
      split: if_splits)

lemma lattice_fp_exact_strict:
  assumes n: "0 < n" and T: "0 < expiry opt" and nd: "volatility opt \<noteq> 0"
  shows "pos_fin (fl_discount (lattice_fp F_exact n opt)) \<and> pos_fin (fl_u (lattice_fp F_exact n opt)) \<and>
         pos_fin (fl_v (lattice_fp F_exact n opt)) \<and> pos_fin (fl_p (lattice_fp F_exact n opt)) \<and>
         pos_fin (dsub Fin (Fin 1) (fl_p (lattice_fp F_exact n opt))) \<and>
         in_unit (fl_p (lattice_fp F_exact n opt))"
proof -
  obtain l where l: "lattice_of n opt = Inr l" "0 < lat_discount l" "1 < lat_u l" "0 < lat_v l"
    "0 < lat_p l" "lat_p l < 1" using lattice_of_strict[OF assms] by blast
  show ?thesis unfolding lattice_fp_exact[OF l(1)] using l(2-)
    by (simp add: pos_fin_def in_unit_def dsub_def)
qed

lemma node_fp_overflow:
  assumes r: "rounding r" and s: "0 < s"
  shows "node_fp r PInf (Fin 0) (Fin s) (Suc c) j =
         (if j = 0 then Fin 0 else if j \<le> c then NaN else PInf)"
proof (induction c arbitrary: j)
  case 0
  show ?case using s rounding_0[OF r] by (cases j) (simp_all add: signed_inf_def)
next
  case (Suc c)
  show ?case
  proof (cases j)
    case 0
    then show ?thesis using Suc[of 0] rounding_0[OF r] by simp
  next
    case (Suc j')
    then show ?thesis using Suc.IH[of j'] by (simp add: signed_inf_def)
  qed
qed

lemma terminal_fp_overflow:
  assumes r: "rounding r" and s: "0 < s" and k: "0 \<le> k" and n: "0 < n"
    and l: "fl_u l = PInf" "fl_v l = Fin 0"
  shows "terminal_fp r n l (Fin s) (Fin k) j = (if j < n then Fin 0 else PInf)"
proof -
  obtain c where c: "n = Suc c" using n by (cases n) simp_all
  show ?thesis unfolding terminal_fp_def l c node_fp_overflow[OF r s] using k
    by (auto simp: Payoff_fp_def dgt_def dsub_def)
qed

lemma value_fp_overflow:
  assumes r: "rounding r" and g: "\<And>j. g j = (if j < n then Fin 0 else PInf)"
  shows "value_fp (expect_fp r (Fin d) (Fin 0)) g (Suc k) i = (if i + Suc k < n then Fin 0 else NaN)"
proof (induction k arbitrary: i)
  case 0
  show ?case using rounding_0[OF r] rounding_1[OF r]
    by (simp add: g expect_fp_def dsub_def signed_inf_def)
next
  case (Suc k)
  show ?case using rounding_0[OF r] rounding_1[OF r]
    by (subst value_fp.simps) (simp add: Suc expect_fp_def dsub_def del: value_fp.simps)
qed

lemma price_fp_overflow:
  assumes r: "rounding r" and s: "0 < s" and k: "0 \<le> k" and n: "0 < n"
    and l: "fl_u l = PInf" "fl_v l = Fin 0" "fl_p l = Fin 0" "fl_discount l = Fin d"
  shows "price_fp r n l (Fin s) (Fin k) = Inr NaN"
proof -
  obtain c where c: "n = Suc c" using n by (cases n) simp_all
  have "value_fp (expect_fp r (Fin d) (Fin 0)) (terminal_fp r n l (Fin s) (Fin k)) (Suc c) 0 =
        (if 0 + Suc c < n then Fin 0 else NaN)"
    using r by (rule value_fp_overflow) (rule terminal_fp_overflow[OF r s k n l(1,2)])
  then show ?thesis unfolding price_fp_eq l(3,4) c by simp
qed

lemma lattice_fp_asset [simp]: "lattice_fp F n (opt\<lparr>asset := x\<rparr>) = lattice_fp F n opt"
  by (simp add: lattice_fp_def step_fp_def ufactor_fp_def discount_fp_def)

lemma F_exact_simps [simp]: "fp_rnd F_exact = Fin" "fp_exp F_exact = (\<lambda>x. Fin (exp x))"
  by (simp_all add: F_exact_def)

lemma OptionPrice_fp_degenerate:
  assumes "rounding (fp_rnd F)" "fp_exp F 0 = Fin 1" "rate opt = 0" "volatility opt = 0"
  shows "OptionPrice_fp F opt = Inr NaN"
  using assms by (intro OptionPrice_fp_unit_ufactor ufactor_fp_degenerate)

lemma dle_NaN_left [simp]: "\<not> dle NaN x"
  by simp

section \<open>Claims\<close>

text \<open>
  C1. The backward loops of the source, whose inner loop runs \<open>jdx\<close> from 0 to \<open>n - 1\<close>
  on every pass, leave at index 0 the value that the specification's backward induction
  (inner bound \<open>step\<close>, shrinking from \<open>n\<close> to 1) leaves there, for any \<open>n + 1\<close> starting
  values. And \<open>OptionPrice\<close>, with \<open>n = 1000\<close>, returns the value at index 0 of the
  specification's backward induction started from the \<open>n + 1\<close> terminal payoffs; when the
  lattice constants are not real numbers, it returns that error. The invariants of the
  parameter set are not needed.
\<close>

theorem OptionPrice_is_spec_backward_induction:
  "(length xs = Suc n \<longrightarrow>
      (\<exists>b. back_outer d q n (map Some xs) n = Inr b \<and>
           rd b 0 = Inr (spec_backward d q xs n ! 0))) \<and>
   OptionPrice opt =
     (case lattice_of 1000 opt of
        Inl e \<Rightarrow> Inl e
      | Inr l \<Rightarrow> Inr (spec_backward (lat_discount l) (lat_p l) (spec_payoffs 1000 opt l) 1000 ! 0))"
proof
  show "length xs = Suc n \<longrightarrow>
      (\<exists>b. back_outer d q n (map Some xs) n = Inr b \<and> rd b 0 = Inr (spec_backward d q xs n ! 0))"
    using back_outer_value[of xs n d q] by (simp add: spec_backward_list)
  show "OptionPrice opt =
     (case lattice_of 1000 opt of
        Inl e \<Rightarrow> Inl e
      | Inr l \<Rightarrow> Inr (spec_backward (lat_discount l) (lat_p l) (spec_payoffs 1000 opt l) 1000 ! 0))"
    unfolding OptionPrice_def OptionPrice_n_eq spec_price_eq ..
qed

theorem OptionPrice_is_spec_backward_induction_witness:
  "(length [0, 0, 1, 7 :: real] = Suc 3 \<and>
      (\<exists>b. back_outer 1 (1 / 2) 3 (map Some [0, 0, 1, 7]) 3 = Inr b \<and>
           rd b 0 = Inr (spec_backward 1 (1 / 2) [0, 0, 1, 7] 3 ! 0))) \<and>
   OptionPrice \<lparr>asset = 100, strike = 100, expiry = 1, rate = 0.05, volatility = 0.2\<rparr> =
     (case lattice_of 1000 \<lparr>asset = 100, strike = 100, expiry = 1, rate = 0.05, volatility = 0.2\<rparr> of
        Inl e \<Rightarrow> Inl e
      | Inr l \<Rightarrow> Inr (spec_backward (lat_discount l) (lat_p l)
          (spec_payoffs 1000 \<lparr>asset = 100, strike = 100, expiry = 1, rate = 0.05, volatility = 0.2\<rparr> l)
            1000 ! 0))"
  using OptionPrice_is_spec_backward_induction
    [of "[0, 0, 1, 7]" 3 1 "1 / 2"
        "\<lparr>asset = 100, strike = 100, expiry = 1, rate = 0.05, volatility = 0.2\<rparr>"]
  by simp



text \<open>
  C3. The lattice constants of \<open>OptionPrice\<close> (\<open>n = 1000\<close>) are the specification's:
  \<open>step\<close> is \<open>dt = expiry / n\<close>, and whenever the specification's formulas denote real
  numbers (\<open>ufactor\<^sup>2 \<ge> 1\<close> and \<open>u \<noteq> v\<close>) the code's \<open>discount\<close>, \<open>u\<close>, \<open>v\<close> and \<open>p\<close>
  are exactly \<open>exp(-rate*dt)\<close>, \<open>ufactor + sqrt(ufactor\<^sup>2 - 1)\<close>, \<open>1/u\<close> and
  \<open>(exp(rate*dt) - v) / (u - v)\<close>; \<open>p\<close> is that quotient as it is, not clamped to
  \<open>[0,1]\<close>. Otherwise the code has the square root of a negative number or a division
  by zero.
\<close>

theorem lattice_constants_match_spec:
  "step_of 1000 opt = Inr (spec_dt 1000 opt) \<and>
   lattice_of 1000 opt =
     (if (spec_ufactor 1000 opt)\<^sup>2 < 1 then Inl SqrtDomain
      else if spec_u 1000 opt = spec_v 1000 opt then Inl DivByZero
      else Inr \<lparr>lat_discount = spec_discount 1000 opt, lat_u = spec_u 1000 opt,
                lat_v = spec_v 1000 opt, lat_p = spec_p 1000 opt\<rparr>)"
proof
  show "step_of 1000 opt = Inr (spec_dt 1000 opt)"
    by (simp add: step_of_def c_div_def spec_dt_def)
  show "lattice_of 1000 opt =
     (if (spec_ufactor 1000 opt)\<^sup>2 < 1 then Inl SqrtDomain
      else if spec_u 1000 opt = spec_v 1000 opt then Inl DivByZero
      else Inr \<lparr>lat_discount = spec_discount 1000 opt, lat_u = spec_u 1000 opt,
                lat_v = spec_v 1000 opt, lat_p = spec_p 1000 opt\<rparr>)"
    by (rule lattice_of_spec) simp
qed

text \<open>
  C4. \<open>Payoff\<close> is the intrinsic value of a call: for every pair of reals
  \<open>(price, strike)\<close> it returns \<open>max (price - strike) 0\<close>. As a HOL function it is
  total and has no state.
\<close>

theorem Payoff_call_intrinsic: "Payoff price k = max (price - k) 0"
  by (simp add: Payoff_def max_def)

text \<open>
  C5, as stated: there are admissible parameters (\<open>asset, strike, expiry > 0\<close>,
  \<open>volatility \<ge> 0\<close>, any rate, \<open>n \<ge> 1\<close>) with \<open>ufactor\<^sup>2 < 1\<close>. There are none:
  \<open>ufactor\<close> is the mean of \<open>exp a\<close> and \<open>exp b\<close> with \<open>a + b = volatility\<^sup>2 * dt \<ge> 0\<close>,
  which is at least 1.
\<close>

theorem sqrt_domain_counterexample:
  "\<not> (\<exists>opt n step. 0 < asset opt \<and> 0 < strike opt \<and> 0 < expiry opt \<and> 0 \<le> volatility opt \<and>
        1 \<le> n \<and> step_of n opt = Inr step \<and> (ufactor_of opt step)\<^sup>2 < 1)"
proof
  assume "\<exists>opt n step. 0 < asset opt \<and> 0 < strike opt \<and> 0 < expiry opt \<and> 0 \<le> volatility opt \<and>
        1 \<le> n \<and> step_of n opt = Inr step \<and> (ufactor_of opt step)\<^sup>2 < 1"
  then obtain opt n step where h: "0 < expiry opt" "1 \<le> (n::nat)" "step_of n opt = Inr step"
    "(ufactor_of opt step)\<^sup>2 < 1" by blast
  have "step = expiry opt / real n" using h(2,3) by (simp add: step_of_def c_div_def)
  then have "0 \<le> step" using h(1) by simp
  then have "1 \<le> ufactor_of opt step" by (rule ufactor_ge_1)
  then have "1 \<le> (ufactor_of opt step)\<^sup>2" by simp
  then show False using h(4) by simp
qed

text \<open>
  C5, amended: under the preconditions \<open>ufactor \<ge> 1\<close>, so the square root is never
  taken of a negative number and the error branch of the guarded \<open>sqrt\<close> is not reached;
  it is reached outside them, for instance with \<open>expiry = -1000\<close>, \<open>rate = 0\<close>,
  \<open>volatility = 1\<close>.
\<close>

theorem sqrt_domain_unreachable:
  "(0 < asset opt \<and> 0 < strike opt \<and> 0 < expiry opt \<and> 0 \<le> volatility opt \<and> 1 \<le> n \<longrightarrow>
      step_of n opt = Inr (expiry opt / real n) \<and>
      1 \<le> ufactor_of opt (expiry opt / real n) \<and>
      c_sqrt (ufactor_of opt (expiry opt / real n) * ufactor_of opt (expiry opt / real n) - 1) \<noteq>
        Inl SqrtDomain \<and>
      lattice_of n opt \<noteq> Inl SqrtDomain) \<and>
   lattice_of 1000 \<lparr>asset = 100, strike = 100, expiry = - 1000, rate = 0, volatility = 1\<rparr> =
     Inl SqrtDomain"
proof (intro conjI impI)
  assume h: "0 < asset opt \<and> 0 < strike opt \<and> 0 < expiry opt \<and> 0 \<le> volatility opt \<and> 1 \<le> n"
  let ?A = "ufactor_of opt (expiry opt / real n)"
  show "step_of n opt = Inr (expiry opt / real n)" using h by (simp add: step_of_def c_div_def)
  show A: "1 \<le> ?A" using h by (intro ufactor_ge_1) simp
  then have "1 \<le> ?A * ?A" by (simp add: mult_ge1_I)
  then have r: "\<not> ?A * ?A - 1 < 0" by simp
  then show "c_sqrt (?A * ?A - 1) \<noteq> Inl SqrtDomain" by (simp add: c_sqrt_def)
  show "lattice_of n opt \<noteq> Inl SqrtDomain"
    using h r by (simp add: lattice_of_unfold Let_def)
next
  have "exp (- 1 :: real) < 1" by simp
  then have "(1 + exp (- 1 :: real)) / 2 < 1" by simp
  moreover have "0 \<le> (1 + exp (- 1 :: real)) / 2" by (simp add: add_nonneg_nonneg)
  ultimately have "(1 + exp (- 1 :: real)) / 2 * ((1 + exp (- 1 :: real)) / 2) < 1 * 1"
    by (intro mult_strict_mono') simp_all
  then show "lattice_of 1000 \<lparr>asset = 100, strike = 100, expiry = - 1000, rate = 0, volatility = 1\<rparr> =
     Inl SqrtDomain"
    by (simp add: lattice_of_unfold Let_def ufactor_of_def discount_of_def)
qed

theorem sqrt_domain_unreachable_witness:
  "step_of 1000 \<lparr>asset = 100, strike = 100, expiry = 1, rate = 0.05, volatility = 0.2\<rparr> =
     Inr (1 / real 1000) \<and>
   1 \<le> ufactor_of \<lparr>asset = 100, strike = 100, expiry = 1, rate = 0.05, volatility = 0.2\<rparr> (1 / real 1000) \<and>
   lattice_of 1000 \<lparr>asset = 100, strike = 100, expiry = 1, rate = 0.05, volatility = 0.2\<rparr> \<noteq>
     Inl SqrtDomain"
  using sqrt_domain_unreachable
    [of "\<lparr>asset = 100, strike = 100, expiry = 1, rate = 0.05, volatility = 0.2\<rparr>" 1000]
  by simp

text \<open>
  C6, as stated: for all admissible parameter sets that differ only in the asset price,
  \<open>asset1 \<le> asset2\<close> gives \<open>price(asset1) \<le> price(asset2)\<close>. It fails at
  \<open>rate = 0\<close>, \<open>volatility = 0\<close>: there \<open>ufactor = 1\<close>, \<open>u = v = 1\<close>, \<open>p\<close> is \<open>0/0\<close> and
  the returned double is NaN for every asset price, in exact arithmetic and under every
  rounding; no comparison with a NaN holds.
\<close>

theorem OptionPrice_fp_mono_asset_counterexample:
  "OptionPrice_fp F_exact \<lparr>asset = 100, strike = 100, expiry = 1, rate = 0, volatility = 0\<rparr> = Inr NaN \<and>
   OptionPrice_fp F_exact \<lparr>asset = 110, strike = 100, expiry = 1, rate = 0, volatility = 0\<rparr> = Inr NaN \<and>
   \<not> (\<exists>F x1 x2. rounding (fp_rnd F) \<and> fp_exp F 0 = Fin 1 \<and>
        OptionPrice_fp F \<lparr>asset = 100, strike = 100, expiry = 1, rate = 0, volatility = 0\<rparr> = Inr x1 \<and>
        OptionPrice_fp F \<lparr>asset = 110, strike = 100, expiry = 1, rate = 0, volatility = 0\<rparr> = Inr x2 \<and>
        dle x1 x2)"
proof -
  have "OptionPrice_fp F \<lparr>asset = a, strike = 100, expiry = 1, rate = 0, volatility = 0\<rparr> = Inr NaN"
    if "rounding (fp_rnd F)" "fp_exp F 0 = Fin 1" for F a
    using that by (intro OptionPrice_fp_degenerate) simp_all
  then show ?thesis using rounding_exact by (auto simp: F_exact_def)
qed

text \<open>
  C6, amended: holding strike, expiry, rate, volatility and the step count fixed, the
  price is non-decreasing in the asset price whenever the lattice constants that the
  code computes are finite with \<open>u > 0\<close>, \<open>v > 0\<close>, \<open>discount > 0\<close>, \<open>p > 0\<close> and
  \<open>1 - p > 0\<close>: then no NaN arises, and \<open>0 \<le> asset1 \<le> asset2\<close> gives
  \<open>price(asset1) \<le> price(asset2)\<close>, where a price may be \<open>+inf\<close>. The condition is on
  the computed constants, not on the parameters: for admissible parameters the computed
  \<open>p\<close> can lie outside \<open>[0,1]\<close> or be infinite or NaN (cancellation in
  \<open>u = ufactor + sqrt(ufactor * ufactor - 1)\<close>, \<open>u = v\<close>), and \<open>u\<close> can be \<open>+inf\<close>.
\<close>

theorem OptionPrice_fp_mono_asset:
  assumes "rounding (fp_rnd F)"
    and "pos_fin (fl_u (lattice_fp F 1000 opt))" "pos_fin (fl_v (lattice_fp F 1000 opt))"
    and "pos_fin (fl_discount (lattice_fp F 1000 opt))"
    and "pos_fin (fl_p (lattice_fp F 1000 opt))"
    and "pos_fin (dsub (fp_rnd F) (Fin 1) (fl_p (lattice_fp F 1000 opt)))"
    and "0 \<le> asset opt" "asset opt \<le> a2"
  shows "\<exists>x1 x2. OptionPrice_fp F opt = Inr x1 \<and> OptionPrice_fp F (opt\<lparr>asset := a2\<rparr>) = Inr x2 \<and>
           dle x1 x2"
  using price_fp_mono[OF assms, of 1000 "strike opt"]
  by (auto simp: OptionPrice_fp_def OptionPrice_fp_n_def)

theorem OptionPrice_fp_mono_asset_witness:
  "\<exists>x1 x2. OptionPrice_fp F_exact \<lparr>asset = 100, strike = 100, expiry = 1, rate = 0.05, volatility = 0.2\<rparr> = Inr x1 \<and>
     OptionPrice_fp F_exact \<lparr>asset = 110, strike = 100, expiry = 1, rate = 0.05, volatility = 0.2\<rparr> = Inr x2 \<and>
     dle x1 x2"
proof -
  let ?opt = "\<lparr>asset = 100, strike = 100, expiry = 1, rate = 0.05, volatility = 0.2\<rparr>"
  have l: "pos_fin (fl_discount (lattice_fp F_exact 1000 ?opt)) \<and> pos_fin (fl_u (lattice_fp F_exact 1000 ?opt)) \<and>
         pos_fin (fl_v (lattice_fp F_exact 1000 ?opt)) \<and> pos_fin (fl_p (lattice_fp F_exact 1000 ?opt)) \<and>
         pos_fin (dsub Fin (Fin 1) (fl_p (lattice_fp F_exact 1000 ?opt))) \<and>
         in_unit (fl_p (lattice_fp F_exact 1000 ?opt))"
    by (rule lattice_fp_exact_strict) simp_all
  have r: "rounding (fp_rnd F_exact)" by (simp add: rounding_exact)
  show ?thesis
    using OptionPrice_fp_mono_asset [of F_exact ?opt 110] r l by simp
qed

text \<open>
  C7. \<open>OptionPrice\<close> is a function of its parameter set alone: whatever the two blocks
  returned by \<open>malloc\<close> hold on entry, two calls with identical parameters return
  identical results. (The call returns a value and nothing else; the blocks are local and
  freed.)
\<close>

theorem OptionPrice_independent_of_memory:
  assumes "length a0 = Suc n" "length b0 = Suc n" "length a1 = Suc n" "length b1 = Suc n"
  shows "OptionPrice_on n a0 b0 opt = OptionPrice_on n a1 b1 opt \<and>
         OptionPrice_on n a0 b0 opt = OptionPrice_n n opt"
  using assms by (simp add: OptionPrice_on_eq OptionPrice_n_eq)

theorem OptionPrice_independent_of_memory_witness:
  "length (replicate 1001 (None :: real option)) = Suc 1000 \<and>
   length (replicate 1001 (Some (3 :: real))) = Suc 1000 \<and>
   OptionPrice_on 1000 (replicate 1001 None) (replicate 1001 None)
     \<lparr>asset = 100, strike = 100, expiry = 1, rate = 0.05, volatility = 0.2\<rparr> =
   OptionPrice_on 1000 (replicate 1001 (Some 3)) (replicate 1001 (Some 3))
     \<lparr>asset = 100, strike = 100, expiry = 1, rate = 0.05, volatility = 0.2\<rparr> \<and>
   OptionPrice_on 1000 (replicate 1001 (Some 3)) (replicate 1001 (Some 3))
     \<lparr>asset = 100, strike = 100, expiry = 1, rate = 0.05, volatility = 0.2\<rparr> =
   OptionPrice \<lparr>asset = 100, strike = 100, expiry = 1, rate = 0.05, volatility = 0.2\<rparr>"
proof -
  have h: "length (replicate 1001 (None :: real option)) = Suc 1000"
    and h': "length (replicate 1001 (Some (3 :: real))) = Suc 1000" by simp_all
  show ?thesis
    using h h' OptionPrice_independent_of_memory [OF h h h' h']
      OptionPrice_independent_of_memory [OF h' h' h h]
    unfolding OptionPrice_def by metis
qed




text \<open>
  C9. Every array access of \<open>OptionPrice\<close> is in bounds and reads a cell written earlier
  in the call: on two fresh blocks of \<open>n + 1\<close> cells, for any values of the constants, the
  store to \<open>assetPrices[0]\<close>, the forward loops, the payoff loop, the backward loops and
  the final read of \<open>optionPrices[0]\<close> all succeed, so neither \<open>OutOfBounds\<close> nor
  \<open>UninitRead\<close> is ever the result of \<open>OptionPrice\<close>.
\<close>

theorem array_accesses_in_bounds_and_initialised:
  "(\<exists>a0 a b0 b x. wr (malloc_doubles (n + 1)) 0 s = Inr a0 \<and> build_outer u' v' n a0 1 = Inr a \<and>
      payoffs k n a (malloc_doubles (n + 1)) 0 = Inr b0 \<and> back_outer d q n b0 n = Inr b \<and>
      rd b 0 = Inr x) \<and>
   OptionPrice opt \<noteq> Inl OutOfBounds \<and> OptionPrice opt \<noteq> Inl UninitRead"
proof (intro conjI)
  let ?ai = "(malloc_doubles (n + 1))[0 := Some s]"
  let ?a = "map (\<lambda>i. Some (node_price s u' v' n i)) [0..<Suc n]"
  let ?g = "\<lambda>i. Payoff (node_price s u' v' n i) k"
  let ?bi = "map (\<lambda>i. Some (?g i)) [0..<Suc n]"
  let ?b = "map (\<lambda>i. Some ((sweep d q n ^^ n) ?g i)) [0..<Suc n]"
  have "wr (malloc_doubles (n + 1)) 0 s = Inr ?ai" by (simp add: wr_ok malloc_doubles_def)
  moreover have "build_outer u' v' n ?ai 1 = Inr ?a"
    by (rule build_outer_ok) (simp_all add: node_price_def malloc_doubles_def)
  moreover have "payoffs k n ?a (malloc_doubles (n + 1)) 0 = Inr ?bi"
    by (rule payoffs_ok) (simp_all add: malloc_doubles_def del: upt_Suc)
  moreover have "back_outer d q n ?bi n = Inr ?b" by (rule back_outer_ok)
  moreover have "rd ?b 0 = Inr ((sweep d q n ^^ n) ?g 0)" by (simp add: rd_def del: upt_Suc)
  ultimately show "\<exists>a0 a b0 b x. wr (malloc_doubles (n + 1)) 0 s = Inr a0 \<and>
      build_outer u' v' n a0 1 = Inr a \<and> payoffs k n a (malloc_doubles (n + 1)) 0 = Inr b0 \<and>
      back_outer d q n b0 n = Inr b \<and> rd b 0 = Inr x" by blast
  show "OptionPrice opt \<noteq> Inl OutOfBounds"
    using lattice_of_errors[of 1000 opt]
    by (auto simp: OptionPrice_def OptionPrice_n_eq split: sum.splits)
  show "OptionPrice opt \<noteq> Inl UninitRead"
    using lattice_of_errors[of 1000 opt]
    by (auto simp: OptionPrice_def OptionPrice_n_eq split: sum.splits)
qed




end
